theory Spec2Isabelle
  imports Main "HOL-Library.Char_ord" "HOL-Library.List_Lexorder"
begin

section \<open>Strings\<close>

text \<open>
  Python strings are modelled as \<open>string\<close> (a list of characters). The model covers ASCII text:
  \<open>str.strip\<close>, \<open>str.lower\<close> and the regular-expression class \<open>\d\<close> are given their
  ASCII meaning.
\<close>

definition is_space :: "char \<Rightarrow> bool" where
  \<comment> \<open>the ASCII characters for which \<open>str.isspace\<close> holds: TAB, LF, VT, FF, CR, FS, GS, RS, US, SPACE\<close>
  "is_space c = (let n = (of_char c :: nat) in (9 \<le> n \<and> n \<le> 13) \<or> (28 \<le> n \<and> n \<le> 32))"

definition strip :: "string \<Rightarrow> string" where
  \<comment> \<open>\<open>s.strip()\<close>\<close>
  "strip s = rev (dropWhile is_space (rev (dropWhile is_space s)))"

definition lower_char :: "char \<Rightarrow> char" where
  "lower_char c = (let n = (of_char c :: nat) in if 65 \<le> n \<and> n \<le> 90 then char_of (n + 32) else c)"

definition lower :: "string \<Rightarrow> string" where
  \<comment> \<open>\<open>s.lower()\<close>\<close>
  "lower s = map lower_char s"

definition startswith :: "string \<Rightarrow> string \<Rightarrow> bool" where
  \<comment> \<open>\<open>s.startswith(p)\<close>\<close>
  "startswith s p = (take (length p) s = p)"

fun str_find :: "string \<Rightarrow> string \<Rightarrow> nat option" where
  \<comment> \<open>\<open>s.find(sub)\<close>: the lowest index where \<open>sub\<close> occurs; \<open>None\<close> stands for Python's \<open>-1\<close>\<close>
  "str_find [] sub = (if sub = [] then Some 0 else None)"
| "str_find (c # cs) sub =
     (if startswith (c # cs) sub then Some 0 else map_option Suc (str_find cs sub))"

fun split_on :: "char \<Rightarrow> string \<Rightarrow> string list" where
  \<comment> \<open>\<open>s.split(c)\<close> for a one-character separator\<close>
  "split_on c [] = [[]]"
| "split_on c (x # xs) =
     (if x = c then [] # split_on c xs
      else (case split_on c xs of [] \<Rightarrow> [[x]] | p # ps \<Rightarrow> (x # p) # ps))"

definition is_digit :: "char \<Rightarrow> bool" where
  "is_digit c = (let n = (of_char c :: nat) in 48 \<le> n \<and> n \<le> 57)"

definition digit_val :: "char \<Rightarrow> int" where
  "digit_val c = int (of_char c) - 48"

definition digits_val :: "string \<Rightarrow> int" where
  "digits_val ds = foldl (\<lambda>acc c. 10 * acc + digit_val c) 0 ds"

section \<open>Errors\<close>

text \<open>
  The exceptions the modelled functions can raise: \<open>ValueError\<close> (with its message) and
  \<open>IndexError\<close>. A function that can raise returns \<open>error + 'a\<close>, \<open>Inl\<close> being the raise.
\<close>

datatype error = ValueError string | IndexError

fun map_result :: "('a \<Rightarrow> 'b) \<Rightarrow> error + 'a \<Rightarrow> error + 'b" where
  \<comment> \<open>what the code after a call makes of its value; a raise passes through\<close>
  "map_result f (Inl e) = Inl e"
| "map_result f (Inr x) = Inr (f x)"

section \<open>Assertion expressions: \<open>parse_assert\<close>\<close>

definition parse_assert :: "string \<Rightarrow> error + (string \<times> string \<times> string)" where
  "parse_assert expr =
     (case str_find expr ''!='' of
        Some idx \<Rightarrow> Inr (strip (take idx expr), ''!='', strip (drop (idx + 2) expr))
      | None \<Rightarrow>
          (case str_find expr ''='' of
             Some idx \<Rightarrow> Inr (strip (take idx expr), ''='', strip (drop (idx + 1) expr))
           | None \<Rightarrow> Inl (ValueError (''Invalid assert expression (no = or !=): '' @ expr))))"

text \<open>
  \<open>occurs_at sub s i\<close>: the text \<open>sub\<close> occurs in \<open>s\<close> at index \<open>i\<close>;
  \<open>first_occurrence sub s i\<close>: it occurs there and at no lower index.
\<close>

definition occurs_at :: "string \<Rightarrow> string \<Rightarrow> nat \<Rightarrow> bool" where
  "occurs_at sub s i = (i + length sub \<le> length s \<and> take (length sub) (drop i s) = sub)"

definition first_occurrence :: "string \<Rightarrow> string \<Rightarrow> nat \<Rightarrow> bool" where
  "first_occurrence sub s i = (occurs_at sub s i \<and> (\<forall>j<i. \<not> occurs_at sub s j))"


section \<open>JSON values and path segments\<close>

text \<open>
  A decoded JSON value. A Python \<open>dict\<close> keeps its keys in insertion order, so an object is a list
  of key/value pairs (keys pairwise distinct in every value the program builds); Python's \<open>None\<close>
  is \<open>JNull\<close>. Numbers are the integers; floating-point numbers are outside the model.
\<close>

datatype json =
    JNull
  | JBool bool
  | JNumber int
  | JString string
  | JArray "json list"
  | JObject "(string \<times> json) list"

text \<open>
  The typed segments returned by \<open>_parse_path_segments\<close>: a \<open>str\<close> is a \<open>Key\<close>, an \<open>int\<close> an
  \<open>Index\<close>, \<open>None\<close> is \<open>Iterate\<close> and a pair \<open>(start, stop)\<close> a \<open>Slice\<close>.
\<close>

datatype seg =
    Key string
  | Index int
  | Iterate
  | Slice "int option" "int option"

section \<open>Path parser\<close>

definition is_int_str :: "string \<Rightarrow> bool" where
  \<comment> \<open>\<open>_INT_RE = ^-?\d+$\<close>\<close>
  "is_int_str s =
     (let ds = (case s of [] \<Rightarrow> s | c # r \<Rightarrow> if c = CHR ''-'' then r else s)
      in ds \<noteq> [] \<and> list_all is_digit ds)"

definition is_opt_int_str :: "string \<Rightarrow> bool" where
  \<comment> \<open>one group \<open>-?\d*\<close> of \<open>_SLICE_RE\<close>\<close>
  "is_opt_int_str s =
     (let ds = (case s of [] \<Rightarrow> s | c # r \<Rightarrow> if c = CHR ''-'' then r else s)
      in list_all is_digit ds)"

definition py_int :: "string \<Rightarrow> error + int" where
  \<comment> \<open>\<open>int(s)\<close> on a string of the shape \<open>-?\d*\<close>: a string without a digit is a \<open>ValueError\<close>\<close>
  "py_int s =
     (let ds = (case s of [] \<Rightarrow> s | c # r \<Rightarrow> if c = CHR ''-'' then r else s)
      in if ds = []
         then Inl (ValueError (''invalid literal for int() with base 10: '' @ [CHR 0x27] @ s @ [CHR 0x27]))
         else Inr (if ds = s then digits_val ds else - digits_val ds))"

definition slice_match :: "string \<Rightarrow> (string \<times> string) option" where
  \<comment> \<open>\<open>_SLICE_RE = ^(-?\d*):(-?\d*)$\<close>: the two groups when the text matches\<close>
  "slice_match content =
     (case dropWhile (\<lambda>c. c \<noteq> CHR '':'') content of
        [] \<Rightarrow> None
      | _ # g2 \<Rightarrow>
          (let g1 = takeWhile (\<lambda>c. c \<noteq> CHR '':'') content
           in if is_opt_int_str g1 \<and> is_opt_int_str g2 then Some (g1, g2) else None))"

definition classify_bracket :: "string \<Rightarrow> error + seg" where
  "classify_bracket content =
     (if content = [] then Inr Iterate
      else (case slice_match content of
              Some (g1, g2) \<Rightarrow>
                (case (if g1 \<noteq> [] then map_result Some (py_int g1) else Inr None) of
                   Inl e \<Rightarrow> Inl e
                 | Inr start \<Rightarrow>
                     (case (if g2 \<noteq> [] then map_result Some (py_int g2) else Inr None) of
                        Inl e \<Rightarrow> Inl e
                      | Inr stop \<Rightarrow> Inr (Slice start stop)))
            | None \<Rightarrow>
                if is_int_str content then map_result Index (py_int content)
                else Inr (Key content)))"

function bracket_groups :: "string \<Rightarrow> string list option" where
  \<comment> \<open>\<open>(?:\[[^\]]*\])*\<close> up to the end of the text: the contents of the brackets, in order\<close>
  "bracket_groups [] = Some []"
| "bracket_groups (c # cs) =
     (if c = CHR ''[''
      then (case dropWhile (\<lambda>x. x \<noteq> CHR '']'') cs of
              [] \<Rightarrow> None
            | _ # rest \<Rightarrow>
                map_option ((#) (takeWhile (\<lambda>x. x \<noteq> CHR '']'') cs)) (bracket_groups rest))
      else None)"
  by pat_completeness auto
termination
proof (relation "measure length")
  fix c :: char and cs :: string and x rest
  assume "dropWhile (\<lambda>x. x \<noteq> CHR '']'') cs = x # rest"
  then have "length (x # rest) \<le> length cs"
    by (metis length_dropWhile_le)
  then show "(rest, c # cs) \<in> measure length" by simp
qed simp

definition bracket_match :: "string \<Rightarrow> (string \<times> string list) option" where
  \<comment> \<open>\<open>re.match(r"^([^\[]*)((?:\[[^\]]*\])+)$", part)\<close>: group 1, and the bracket contents that
      \<open>re.findall(r"\[([^\]]*)\]", m.group(2))\<close> returns\<close>
  "bracket_match part =
     (case dropWhile (\<lambda>c. c \<noteq> CHR ''['') part of
        [] \<Rightarrow> None
      | b # bs \<Rightarrow>
          map_option (Pair (takeWhile (\<lambda>c. c \<noteq> CHR ''['') part)) (bracket_groups (b # bs)))"

fun sequence :: "(error + 'a) list \<Rightarrow> error + 'a list" where
  \<comment> \<open>the results of a loop, or the first exception raised\<close>
  "sequence [] = Inr []"
| "sequence (Inl e # rs) = Inl e"
| "sequence (Inr x # rs) = map_result ((#) x) (sequence rs)"

definition parse_part :: "string \<Rightarrow> error + seg list" where
  \<comment> \<open>the loop body of \<open>_parse_path_segments\<close> for one stripped, non-empty part\<close>
  "parse_part part =
     (case bracket_match part of
        Some (g1, brackets) \<Rightarrow>
          (let key_part = strip g1
           in map_result (\<lambda>segs. (if key_part \<noteq> [] then [Key key_part] else []) @ segs)
                (sequence (map (\<lambda>bracket. classify_bracket (strip bracket)) brackets)))
      | None \<Rightarrow>
          if is_int_str part then map_result (\<lambda>i. [Index i]) (py_int part)
          else Inr [Key part])"

definition parse_path_segments :: "string \<Rightarrow> error + seg list" where
  "parse_path_segments path =
     map_result concat
       (sequence (map parse_part (filter (\<lambda>part. part \<noteq> []) (map strip (split_on CHR ''.'' (strip path))))))"

section \<open>Value extraction\<close>

definition ci_get :: "(string \<times> 'a) list \<Rightarrow> string \<Rightarrow> (string \<times> 'a) option" where
  \<comment> \<open>\<open>_ci_get\<close>: \<open>Some (actual_key, value)\<close>, or \<open>None\<close> for the result \<open>(None, None)\<close>\<close>
  "ci_get d key =
     (case map_of d key of
        Some v \<Rightarrow> Some (key, v)
      | None \<Rightarrow> find (\<lambda>(k, v). lower k = lower key) d)"

definition norm_index :: "nat \<Rightarrow> int \<Rightarrow> nat option" where
  \<comment> \<open>the position a Python index denotes in a list of length \<open>n\<close>; \<open>None\<close> is \<open>IndexError\<close>\<close>
  "norm_index n i =
     (let j = (if i < 0 then int n + i else i)
      in if 0 \<le> j \<and> j < int n then Some (nat j) else None)"

definition py_index :: "'a list \<Rightarrow> int \<Rightarrow> 'a option" where
  \<comment> \<open>\<open>xs[i]\<close>\<close>
  "py_index xs i = map_option (\<lambda>j. xs ! j) (norm_index (length xs) i)"

fun get_value :: "json \<Rightarrow> seg list \<Rightarrow> json option" where
  \<comment> \<open>\<open>_get_value\<close>: \<open>Some value\<close> for \<open>(True, value)\<close>, \<open>None\<close> for \<open>(False, None)\<close>\<close>
  "get_value current [] = Some current"
| "get_value current (seg # segs) =
     (if current = JNull then None
      else (case seg of
              Key s \<Rightarrow>
                (case current of
                   JObject d \<Rightarrow>
                     (case ci_get d s of
                        None \<Rightarrow> None
                      | Some (actual, val) \<Rightarrow> get_value val segs)
                 | _ \<Rightarrow> None)
            | Index i \<Rightarrow>
                (case current of
                   JArray xs \<Rightarrow>
                     (case py_index xs i of
                        None \<Rightarrow> None
                      | Some val \<Rightarrow> get_value val segs)
                 | _ \<Rightarrow> None)
            | _ \<Rightarrow> None))"

definition slice_bound :: "nat \<Rightarrow> int option \<Rightarrow> nat \<Rightarrow> nat" where
  \<comment> \<open>one bound of \<open>slice(start, stop).indices(n)\<close> (step 1), \<open>dflt\<close> being the value for \<open>None\<close>\<close>
  "slice_bound n b dflt =
     (case b of
        None \<Rightarrow> dflt
      | Some i \<Rightarrow> if i < 0 then nat (max (int n + i) 0) else nat (min i (int n)))"

definition resolve_list_segment :: "'a list \<Rightarrow> seg \<Rightarrow> (nat \<times> 'a) list" where
  "resolve_list_segment arr seg =
     (case seg of
        Iterate \<Rightarrow> enumerate 0 arr
      | Index i \<Rightarrow>
          (case norm_index (length arr) i of
             Some idx \<Rightarrow> [(idx, arr ! idx)]
           | None \<Rightarrow> [])
      | Slice start stop \<Rightarrow>
          map (\<lambda>i. (i, arr ! i))
            [slice_bound (length arr) start 0 ..< slice_bound (length arr) stop (length arr)]
      | Key _ \<Rightarrow> [])"


section \<open>Building the result tree\<close>

text \<open>
  The source builds the result by mutating nested dicts and lists in place. Here the result tree
  is a value passed in and returned updated. \<open>_ensure_container\<close> returns a reference to a
  container inside the tree, which its caller then mutates: the model passes that mutation as the
  function \<open>upd\<close>, applied to the container the walk ends in, and rebuilds the tree around its
  result. An exception leaves no result tree behind, so raising discards the partial updates.
  This value model and the source agree as long as no write reaches a container that is shared
  with the input; the store model further down has the sharing.
\<close>

fun dict_set :: "(string \<times> 'a) list \<Rightarrow> string \<Rightarrow> 'a \<Rightarrow> (string \<times> 'a) list" where
  \<comment> \<open>\<open>d[k] = v\<close>: an existing key keeps its place, a new key is appended\<close>
  "dict_set [] k v = [(k, v)]"
| "dict_set ((k', v') # ps) k v = (if k' = k then (k, v) # ps else (k', v') # dict_set ps k v)"

definition pad :: "'a list \<Rightarrow> nat \<Rightarrow> 'a \<Rightarrow> 'a list" where
  \<comment> \<open>\<open>while len(xs) < n: xs.append(v)\<close>\<close>
  "pad xs n v = xs @ replicate (n - length xs) v"

definition is_key :: "seg \<Rightarrow> bool" where
  \<comment> \<open>\<open>isinstance(seg, str)\<close>\<close>
  "is_key seg = (case seg of Key _ \<Rightarrow> True | _ \<Rightarrow> False)"

fun ensure_container :: "json \<Rightarrow> seg list \<Rightarrow> (json \<Rightarrow> error + json) \<Rightarrow> error + json" where
  \<comment> \<open>the walk over \<open>segments[:-1]\<close>, \<open>next_seg\<close> being the segment after \<open>seg\<close>\<close>
  "ensure_container target [] upd = upd target"
| "ensure_container target [last_seg] upd = upd target"
| "ensure_container target (seg # next_seg # rest) upd =
     (case seg of
        Key s \<Rightarrow>
          (case target of
             JObject d \<Rightarrow>
               (case ci_get d s of
                  None \<Rightarrow>
                    (case ensure_container (if is_key next_seg then JObject [] else JArray [])
                            (next_seg # rest) upd of
                       Inl e \<Rightarrow> Inl e
                     | Inr child \<Rightarrow> Inr (JObject (dict_set d s child)))
                | Some (actual, child) \<Rightarrow>
                    (case ensure_container child (next_seg # rest) upd of
                       Inl e \<Rightarrow> Inl e
                     | Inr child' \<Rightarrow> Inr (JObject (dict_set d actual child'))))
           | _ \<Rightarrow> ensure_container target (next_seg # rest) upd)
      | Index i \<Rightarrow>
          (case target of
             JArray xs \<Rightarrow>
               (let xs' = (if 0 \<le> i then pad xs (nat i + 1) (JObject []) else xs)
                in case norm_index (length xs') i of
                     None \<Rightarrow> Inl IndexError
                   | Some j \<Rightarrow>
                       (case ensure_container (xs' ! j) (next_seg # rest) upd of
                          Inl e \<Rightarrow> Inl e
                        | Inr child \<Rightarrow> Inr (JArray (xs'[j := child]))))
           | _ \<Rightarrow> ensure_container target (next_seg # rest) upd)
      | _ \<Rightarrow> ensure_container target (next_seg # rest) upd)"

definition set_last :: "seg \<Rightarrow> json \<Rightarrow> json \<Rightarrow> error + json" where
  \<comment> \<open>the assignment at the end of \<open>_set_in_result\<close>, on the container \<open>target\<close>\<close>
  "set_last last_seg v target =
     (case last_seg of
        Key s \<Rightarrow>
          (case target of
             JObject d \<Rightarrow> Inr (JObject (dict_set d s v))
           | _ \<Rightarrow> Inr target)
      | Index i \<Rightarrow>
          (case target of
             JArray xs \<Rightarrow>
               (let xs' = (if 0 \<le> i then pad xs (nat i + 1) JNull else xs)
                in case norm_index (length xs') i of
                     None \<Rightarrow> Inl IndexError
                   | Some j \<Rightarrow> Inr (JArray (xs'[j := v])))
           | _ \<Rightarrow> Inr target)
      | _ \<Rightarrow> Inr target)"

definition set_in_result :: "json \<Rightarrow> seg list \<Rightarrow> json \<Rightarrow> error + json" where
  "set_in_result result segments v =
     (if segments = [] then Inr result
      else ensure_container result segments (set_last (last segments) v))"

section \<open>Applying a single filter spec\<close>

definition is_coll :: "seg \<Rightarrow> bool" where
  \<comment> \<open>the test of the loop that finds \<open>coll_idx\<close> in \<open>_apply_spec\<close>\<close>
  "is_coll seg = (case seg of Iterate \<Rightarrow> True | Slice _ _ \<Rightarrow> True | Index i \<Rightarrow> i < 0 | Key _ \<Rightarrow> False)"

fun nav_container :: "json \<Rightarrow> seg list \<Rightarrow> (json \<Rightarrow> error + json) \<Rightarrow> error + json" where
  \<comment> \<open>the loop of \<open>_apply_spec\<close> that navigates or creates the list container along \<open>prefix\<close>;
      \<open>upd\<close> is what the rest of \<open>_apply_spec\<close> does to the container\<close>
  "nav_container container [] upd = upd container"
| "nav_container container (seg # rest) upd =
     (case seg of
        Key s \<Rightarrow>
          (case container of
             JObject d \<Rightarrow>
               (case ci_get d s of
                  None \<Rightarrow>
                    (case nav_container (if rest = [] then JArray [] else JObject []) rest upd of
                       Inl e \<Rightarrow> Inl e
                     | Inr child \<Rightarrow> Inr (JObject (dict_set d s child)))
                | Some (actual, child) \<Rightarrow>
                    (case nav_container child rest upd of
                       Inl e \<Rightarrow> Inl e
                     | Inr child' \<Rightarrow> Inr (JObject (dict_set d actual child'))))
           | _ \<Rightarrow> nav_container container rest upd)
      | Index i \<Rightarrow>
          (case container of
             JArray xs \<Rightarrow>
               (let xs' = (if 0 \<le> i then pad xs (nat i + 1) (JObject []) else xs)
                in case norm_index (length xs') i of
                     None \<Rightarrow> Inl IndexError
                   | Some j \<Rightarrow>
                       (case nav_container (xs' ! j) rest upd of
                          Inl e \<Rightarrow> Inl e
                        | Inr child \<Rightarrow> Inr (JArray (xs'[j := child]))))
           | _ \<Rightarrow> nav_container container rest upd)
      | _ \<Rightarrow> nav_container container rest upd)"

fun iterate_items :: "json list \<Rightarrow> (nat \<times> json) list \<Rightarrow> seg list \<Rightarrow> error + json list" where
  \<comment> \<open>the loop over \<open>pairs\<close> in the iteration case\<close>
  "iterate_items container [] suffix = Inr container"
| "iterate_items container ((j, item) # pairs) suffix =
     (if j < length container
      then (if suffix \<noteq> []
            then (case get_value item suffix of
                    Some v \<Rightarrow>
                      (case set_in_result
                              (case container ! j of JObject d \<Rightarrow> JObject d | _ \<Rightarrow> JObject [])
                              suffix v of
                         Inl e \<Rightarrow> Inl e
                       | Inr entry \<Rightarrow> iterate_items (container[j := entry]) pairs suffix)
                  | None \<Rightarrow> iterate_items container pairs suffix)
            else iterate_items (container[j := item]) pairs suffix)
      else Inl IndexError)"

fun slice_items :: "json list \<Rightarrow> (nat \<times> json) list \<Rightarrow> seg list \<Rightarrow> error + json list" where
  \<comment> \<open>the loop over \<open>pairs\<close> in the slice case\<close>
  "slice_items container [] suffix = Inr container"
| "slice_items container ((j, item) # pairs) suffix =
     (if suffix \<noteq> []
      then (case get_value item suffix of
              Some v \<Rightarrow>
                (case set_in_result (JObject []) suffix v of
                   Inl e \<Rightarrow> Inl e
                 | Inr entry \<Rightarrow> slice_items (container @ [entry]) pairs suffix)
            | None \<Rightarrow> slice_items container pairs suffix)
      else slice_items (container @ [item]) pairs suffix)"

definition iterate_entry :: "seg list \<Rightarrow> json \<Rightarrow> error + json" where
  \<comment> \<open>one pass of the body of the iteration loop over an entry that is still the padding \<open>{}\<close>:
      what \<open>container[idx]\<close> holds afterwards\<close>
  "iterate_entry suffix item =
     (if suffix = [] then Inr item
      else (case get_value item suffix of
              Some x \<Rightarrow> set_in_result (JObject []) suffix x
            | None \<Rightarrow> Inr (JObject [])))"

definition slice_entry :: "seg list \<Rightarrow> json \<Rightarrow> error + json list" where
  \<comment> \<open>one pass of the body of the slice loop: the entries it appends to \<open>container\<close>\<close>
  "slice_entry suffix item =
     (if suffix = [] then Inr [item]
      else (case get_value item suffix of
              Some x \<Rightarrow> map_result (\<lambda>entry. [entry]) (set_in_result (JObject []) suffix x)
            | None \<Rightarrow> Inr []))"

definition fill_container :: "json list \<Rightarrow> seg \<Rightarrow> seg list \<Rightarrow> json \<Rightarrow> error + json" where
  \<comment> \<open>\<open>_apply_spec\<close> from \<open>if not isinstance(container, list)\<close> on\<close>
  "fill_container arr coll_seg suffix container =
     (case container of
        JArray ys \<Rightarrow>
          (if coll_seg = Iterate
           then map_result JArray
                  (iterate_items (pad ys (length arr) (JObject [])) (resolve_list_segment arr coll_seg) suffix)
           else map_result JArray (slice_items ys (resolve_list_segment arr coll_seg) suffix))
      | _ \<Rightarrow> Inr container)"

definition apply_segments :: "json \<Rightarrow> seg list \<Rightarrow> json \<Rightarrow> error + json" where
  \<comment> \<open>\<open>_apply_spec\<close> after the spec is parsed\<close>
  "apply_segments data segments result =
     (if segments = [] then Inr result
      else (case dropWhile (\<lambda>seg. \<not> is_coll seg) segments of
              [] \<Rightarrow>
                (case get_value data segments of
                   Some v \<Rightarrow> set_in_result result segments v
                 | None \<Rightarrow> Inr result)
            | coll_seg # suffix \<Rightarrow>
                (let prefix = takeWhile (\<lambda>seg. \<not> is_coll seg) segments
                 in case get_value data prefix of
                      Some (JArray arr) \<Rightarrow>
                        (if resolve_list_segment arr coll_seg = [] then Inr result
                         else nav_container result prefix (fill_container arr coll_seg suffix))
                    | _ \<Rightarrow> Inr result)))"

definition apply_spec :: "json \<Rightarrow> string \<Rightarrow> json \<Rightarrow> error + json" where
  "apply_spec data spec result =
     (case parse_path_segments spec of
        Inl e \<Rightarrow> Inl e
      | Inr segments \<Rightarrow> apply_segments data segments result)"

section \<open>Public API\<close>

fun apply_specs :: "json \<Rightarrow> string list \<Rightarrow> json \<Rightarrow> error + json" where
  \<comment> \<open>\<open>for spec in cleaned: _apply_spec(data, spec, result)\<close>\<close>
  "apply_specs data [] result = Inr result"
| "apply_specs data (spec # specs) result =
     (case apply_spec data spec result of
        Inl e \<Rightarrow> Inl e
      | Inr result' \<Rightarrow> apply_specs data specs result')"

definition filter_response :: "json \<Rightarrow> string list \<Rightarrow> error + json" where
  "filter_response data field_specs =
     (if field_specs = [] then Inr data
      else (let cleaned = filter (\<lambda>s. s \<noteq> []) (map strip field_specs)
            in if cleaned = [] \<or> ''*'' \<in> set cleaned then Inr data
               else (case data of
                       JObject _ \<Rightarrow> apply_specs data cleaned (JObject [])
                     | _ \<Rightarrow> Inr data)))"

definition is_coll_extract :: "seg \<Rightarrow> bool" where
  \<comment> \<open>the test of the loop that finds \<open>coll_idx\<close> in \<open>extract_value\<close>\<close>
  "is_coll_extract seg = (case seg of Iterate \<Rightarrow> True | Slice _ _ \<Rightarrow> True | _ \<Rightarrow> False)"

definition strip_body_prefix :: "string \<Rightarrow> string" where
  \<comment> \<open>the first three lines of \<open>extract_value\<close>: strip the path and drop a leading \<open>body.\<close>\<close>
  "strip_body_prefix path0 =
     (let path = strip path0
      in if startswith (lower path) ''body.'' then drop 5 path else path)"

definition extract_segments :: "json \<Rightarrow> seg list \<Rightarrow> json" where
  \<comment> \<open>\<open>extract_value\<close> after the path is parsed; the result \<open>None\<close> is \<open>JNull\<close>\<close>
  "extract_segments data segments =
     (case dropWhile (\<lambda>seg. \<not> is_coll_extract seg) segments of
        [] \<Rightarrow> (case get_value data segments of Some v \<Rightarrow> v | None \<Rightarrow> JNull)
      | coll_seg # suffix \<Rightarrow>
          (case get_value data (takeWhile (\<lambda>seg. \<not> is_coll_extract seg) segments) of
             Some (JArray arr) \<Rightarrow>
               JArray (concat (map (\<lambda>(j, item).
                    if suffix \<noteq> []
                    then (case get_value item suffix of Some v \<Rightarrow> [v] | None \<Rightarrow> [])
                    else [item])
                  (resolve_list_segment arr coll_seg)))
           | _ \<Rightarrow> JNull))"

definition extract_value :: "json \<Rightarrow> string \<Rightarrow> error + json" where
  "extract_value data path =
     map_result (extract_segments data) (parse_path_segments (strip_body_prefix path))"

section \<open>Assertions\<close>

text \<open>
  The fields of \<open>RequestResult\<close> (executor.py) that the modelled functions read. \<open>elapsed_ms\<close>, a
  float, is left out.
\<close>

record request_result =
  status_code :: int
  headers :: "(string \<times> string) list"
  body :: json
  error :: "string option"
  raw_text :: string

definition assert_actual :: "string \<Rightarrow> request_result \<Rightarrow> error + json" where
  \<comment> \<open>the \<open>if\<close> chain of \<open>evaluate_assert\<close> that resolves \<open>actual\<close>\<close>
  "assert_actual path result =
     (if path = ''status'' then Inr (JNumber (status_code result))
      else if startswith path ''body.'' then extract_value (body result) path
      else if path = ''body'' then Inr (body result)
      else extract_value (body result) path)"

text \<open>
  Python's built-in \<open>str\<close> is not code of this repository: \<open>evaluate_assert\<close> takes it as the
  parameter \<open>str_of\<close>.
\<close>

definition evaluate_assert ::
  "(json \<Rightarrow> string) \<Rightarrow> string \<Rightarrow> request_result \<Rightarrow> error + (bool \<times> string)" where
  "evaluate_assert str_of expr result =
     (case parse_assert expr of
        Inl e \<Rightarrow> Inl e
      | Inr (path, op, expected) \<Rightarrow>
          (case assert_actual path result of
             Inl e \<Rightarrow> Inl e
           | Inr actual \<Rightarrow>
               (let actual_str = (if actual \<noteq> JNull then str_of actual else []);
                    passed = (if op = ''='' then actual_str = expected else actual_str \<noteq> expected)
                in if passed then Inr (True, ''ASSERT PASSED: '' @ expr)
                   else Inr (False, ''ASSERT FAILED: '' @ expr @ '' (actual: '' @ actual_str @ '')''))))"

section \<open>Snapshot diff\<close>

text \<open>
  Python's \<open>==\<close> on decoded JSON values: \<open>True == 1\<close> and \<open>False == 0\<close> hold, lists are equal
  element by element, and two dicts are equal when they have the same number of keys and every
  key of the first is bound to an equal value in the second, whatever the order of the keys.
\<close>

fun py_eq :: "json \<Rightarrow> json \<Rightarrow> bool"
  and py_eq_list :: "json list \<Rightarrow> json list \<Rightarrow> bool"
  and py_eq_items :: "(string \<times> json) list \<Rightarrow> (string \<times> json) list \<Rightarrow> bool" where
  "py_eq JNull b = (b = JNull)"
| "py_eq (JBool x) b =
     (case b of JBool y \<Rightarrow> x = y | JNumber n \<Rightarrow> (if x then 1 else 0) = n | _ \<Rightarrow> False)"
| "py_eq (JNumber m) b =
     (case b of JBool y \<Rightarrow> m = (if y then 1 else 0) | JNumber n \<Rightarrow> m = n | _ \<Rightarrow> False)"
| "py_eq (JString x) b = (b = JString x)"
| "py_eq (JArray xs) b = (case b of JArray ys \<Rightarrow> py_eq_list xs ys | _ \<Rightarrow> False)"
| "py_eq (JObject d) b =
     (case b of JObject e \<Rightarrow> length d = length e \<and> py_eq_items d e | _ \<Rightarrow> False)"
| "py_eq_list [] ys = (ys = [])"
| "py_eq_list (x # xs) ys = (case ys of [] \<Rightarrow> False | y # ys' \<Rightarrow> py_eq x y \<and> py_eq_list xs ys')"
| "py_eq_items [] e = True"
| "py_eq_items ((k, v) # d) e =
     (case map_of e k of None \<Rightarrow> False | Some w \<Rightarrow> py_eq v w \<and> py_eq_items d e)"

text \<open>
  The invariant of decoded documents: a dict has no key twice.
\<close>

fun wf_json :: "json \<Rightarrow> bool" where
  "wf_json (JArray xs) = (\<forall>x \<in> set xs. wf_json x)"
| "wf_json (JObject d) = (distinct (map fst d) \<and> (\<forall>v \<in> set (map snd d). wf_json v))"
| "wf_json v = True"

definition dict_get :: "(string \<times> json) list \<Rightarrow> string \<Rightarrow> json" where
  \<comment> \<open>\<open>d.get(k)\<close>\<close>
  "dict_get d k = (case map_of d k of Some v \<Rightarrow> v | None \<Rightarrow> JNull)"

definition arrow :: string where
  \<comment> \<open>the UTF-8 bytes of the arrow U+2192 between two blanks\<close>
  "arrow = [CHR '' '', CHR 0xE2, CHR 0x86, CHR 0x92, CHR '' '']"

text \<open>
  \<open>str\<close> and \<open>json.dumps\<close> are library functions: the differ takes them as the parameters
  \<open>str_of\<close> and \<open>dumps\<close>.
\<close>

definition summarize :: "(json \<Rightarrow> string) \<Rightarrow> (json \<Rightarrow> string) \<Rightarrow> json \<Rightarrow> string" where
  "summarize str_of dumps v =
     (let s = (case v of JObject _ \<Rightarrow> dumps v | JArray _ \<Rightarrow> dumps v | _ \<Rightarrow> str_of v)
      in if length s > 80 then take 77 s @ ''...'' else s)"

definition all_keys :: "(string \<times> json) list \<Rightarrow> (string \<times> json) list \<Rightarrow> string list" where
  \<comment> \<open>\<open>sorted(set(list(old.keys()) + list(new.keys())))\<close>\<close>
  "all_keys old new = sort (remdups (map fst old @ map fst new))"

function diff_dicts ::
  "(json \<Rightarrow> string) \<Rightarrow> (json \<Rightarrow> string) \<Rightarrow> string \<Rightarrow> (string \<times> json) list \<Rightarrow> (string \<times> json) list
     \<Rightarrow> string list" where
  \<comment> \<open>\<open>_diff_dicts\<close>: the lines it appends to \<open>diffs\<close>, in order\<close>
  "diff_dicts str_of dumps prefix old new =
     concat (map (\<lambda>key.
        (let path = prefix @ ''.'' @ key
         in case map_of old key of
              None \<Rightarrow> [path @ '': (absent)'' @ arrow @ summarize str_of dumps (dict_get new key)]
            | Some ov \<Rightarrow>
                (case map_of new key of
                   None \<Rightarrow> [path @ '': '' @ summarize str_of dumps ov @ arrow @ ''(absent)'']
                 | Some nv \<Rightarrow>
                     (case (ov, nv) of
                        (JObject od, JObject nd) \<Rightarrow> diff_dicts str_of dumps path od nd
                      | _ \<Rightarrow>
                          if \<not> py_eq ov nv
                          then [path @ '': '' @ summarize str_of dumps ov @ arrow
                                  @ summarize str_of dumps nv]
                          else []))))
       (all_keys old new))"
  by pat_completeness auto
termination
proof (relation "measure (\<lambda>(str_of, dumps, prefix, old, new). size (JObject old))")
  fix old new od nd :: "(string \<times> json) list" and key path prefix :: string and ov nv a b :: json
    and str_of dumps :: "json \<Rightarrow> string"
  assume "map_of old key = Some ov" and "(a, b) = (ov, nv)" and "a = JObject od"
  then have "(key, JObject od) \<in> set old"
    by (simp add: map_of_SomeD)
  then have "size_prod (\<lambda>x. 0) size (key, JObject od) \<le> size_list (size_prod (\<lambda>x. 0) size) old"
    by (rule size_list_estimation') simp
  then show "((str_of, dumps, path, od, nd), (str_of, dumps, prefix, old, new))
       \<in> measure (\<lambda>(str_of, dumps, prefix, old, new). size (JObject old))"
    by simp
qed simp

declare diff_dicts.simps [simp del]

definition diff_snapshot ::
  "(json \<Rightarrow> string) \<Rightarrow> (json \<Rightarrow> string) \<Rightarrow> (string \<times> json) list \<Rightarrow> request_result \<Rightarrow> string list" where
  \<comment> \<open>the snapshot is the decoded JSON object of the snapshot file\<close>
  "diff_snapshot str_of dumps snapshot result =
     (let snap_status = dict_get snapshot ''status_code'';
          status_diffs =
            (if \<not> py_eq snap_status (JNumber (status_code result))
             then [''status_code: '' @ str_of snap_status @ arrow @ str_of (JNumber (status_code result))]
             else []);
          snap_body = dict_get snapshot ''body'';
          curr_body = body result
      in status_diffs @
         (case (snap_body, curr_body) of
            (JObject od, JObject nd) \<Rightarrow> diff_dicts str_of dumps ''body'' od nd
          | _ \<Rightarrow>
              if \<not> py_eq snap_body curr_body
              then [''body: '' @ summarize str_of dumps snap_body @ arrow
                      @ summarize str_of dumps curr_body]
              else []))"

section \<open>The result tree in a store\<close>

text \<open>
  Python dicts and lists are objects with identity: \<open>target[last] = value\<close> stores a reference to
  \<open>value\<close>, not a copy. This second model of the projection keeps every dict and list in a store,
  a list of cells addressed by position, so that a container of the input that has been placed in
  the result is the same cell in both. Scalars are immediate values. The functions are those of
  the value model, with the store passed in and returned; what a raise leaves in the store is
  not modelled.
\<close>

type_synonym addr = nat

datatype val = VNull | VBool bool | VNumber int | VString string | VRef addr

datatype cell = CDict "(string \<times> val) list" | CList "val list"

type_synonym store = "cell list"

definition alloc :: "store \<Rightarrow> cell \<Rightarrow> store \<times> val" where
  \<comment> \<open>a new dict or list\<close>
  "alloc h c = (h @ [c], VRef (length h))"

definition cell_at :: "store \<Rightarrow> val \<Rightarrow> cell option" where
  "cell_at h v = (case v of VRef a \<Rightarrow> if a < length h then Some (h ! a) else None | _ \<Rightarrow> None)"

definition put :: "store \<Rightarrow> val \<Rightarrow> cell \<Rightarrow> store" where
  \<comment> \<open>the in-place update of the object \<open>v\<close> refers to\<close>
  "put h v c = (case v of VRef a \<Rightarrow> h[a := c] | _ \<Rightarrow> h)"

fun load :: "store \<Rightarrow> json \<Rightarrow> store \<times> val"
  and load_list :: "store \<Rightarrow> json list \<Rightarrow> store \<times> val list"
  and load_items :: "store \<Rightarrow> (string \<times> json) list \<Rightarrow> store \<times> (string \<times> val) list" where
  \<comment> \<open>a decoded JSON document as fresh objects in the store\<close>
  "load h JNull = (h, VNull)"
| "load h (JBool b) = (h, VBool b)"
| "load h (JNumber n) = (h, VNumber n)"
| "load h (JString s) = (h, VString s)"
| "load h (JArray xs) = (case load_list h xs of (h1, vs) \<Rightarrow> alloc h1 (CList vs))"
| "load h (JObject d) = (case load_items h d of (h1, kvs) \<Rightarrow> alloc h1 (CDict kvs))"
| "load_list h [] = (h, [])"
| "load_list h (x # xs) =
     (case load h x of (h1, v) \<Rightarrow> (case load_list h1 xs of (h2, vs) \<Rightarrow> (h2, v # vs)))"
| "load_items h [] = (h, [])"
| "load_items h ((k, x) # d) =
     (case load h x of (h1, v) \<Rightarrow> (case load_items h1 d of (h2, kvs) \<Rightarrow> (h2, (k, v) # kvs)))"

fun read_back :: "nat \<Rightarrow> store \<Rightarrow> val \<Rightarrow> json option" where
  \<comment> \<open>the JSON document a value denotes in the store, followed to the depth \<open>fuel\<close>\<close>
  "read_back fuel h VNull = Some JNull"
| "read_back fuel h (VBool b) = Some (JBool b)"
| "read_back fuel h (VNumber n) = Some (JNumber n)"
| "read_back fuel h (VString s) = Some (JString s)"
| "read_back 0 h (VRef a) = None"
| "read_back (Suc fuel) h (VRef a) =
     (case cell_at h (VRef a) of
        None \<Rightarrow> None
      | Some (CList vs) \<Rightarrow> map_option JArray (those (map (read_back fuel h) vs))
      | Some (CDict kvs) \<Rightarrow>
          map_option JObject (those (map (\<lambda>(k, v). map_option (Pair k) (read_back fuel h v)) kvs)))"

fun st_get_value :: "store \<Rightarrow> val \<Rightarrow> seg list \<Rightarrow> val option" where
  \<comment> \<open>\<open>_get_value\<close>\<close>
  "st_get_value h current [] = Some current"
| "st_get_value h current (seg # segs) =
     (if current = VNull then None
      else (case seg of
              Key s \<Rightarrow>
                (case cell_at h current of
                   Some (CDict d) \<Rightarrow>
                     (case ci_get d s of
                        None \<Rightarrow> None
                      | Some (actual, v) \<Rightarrow> st_get_value h v segs)
                 | _ \<Rightarrow> None)
            | Index i \<Rightarrow>
                (case cell_at h current of
                   Some (CList xs) \<Rightarrow>
                     (case py_index xs i of
                        None \<Rightarrow> None
                      | Some v \<Rightarrow> st_get_value h v segs)
                 | _ \<Rightarrow> None)
            | _ \<Rightarrow> None))"

fun append_dicts :: "store \<Rightarrow> val \<Rightarrow> nat \<Rightarrow> store" where
  \<comment> \<open>\<open>target.append({})\<close>, \<open>n\<close> times: each time a new dict\<close>
  "append_dicts h target 0 = h"
| "append_dicts h target (Suc n) =
     (case alloc h (CDict []) of
        (h1, c) \<Rightarrow>
          (case cell_at h1 target of
             Some (CList xs) \<Rightarrow> append_dicts (put h1 target (CList (xs @ [c]))) target n
           | _ \<Rightarrow> h1))"

fun st_ensure_container :: "store \<Rightarrow> val \<Rightarrow> seg list \<Rightarrow> error + (store \<times> val)" where
  \<comment> \<open>\<open>_ensure_container\<close>: the store after the walk and the container it returns\<close>
  "st_ensure_container h target [] = Inr (h, target)"
| "st_ensure_container h target [last_seg] = Inr (h, target)"
| "st_ensure_container h target (seg # next_seg # rest) =
     (case seg of
        Key s \<Rightarrow>
          (case cell_at h target of
             Some (CDict d) \<Rightarrow>
               (case ci_get d s of
                  None \<Rightarrow>
                    (case alloc h (if is_key next_seg then CDict [] else CList []) of
                       (h1, child) \<Rightarrow>
                         st_ensure_container (put h1 target (CDict (dict_set d s child))) child
                           (next_seg # rest))
                | Some (actual, child) \<Rightarrow> st_ensure_container h child (next_seg # rest))
           | _ \<Rightarrow> st_ensure_container h target (next_seg # rest))
      | Index i \<Rightarrow>
          (case cell_at h target of
             Some (CList xs) \<Rightarrow>
               (let h1 = (if 0 \<le> i then append_dicts h target (nat i + 1 - length xs) else h)
                in case cell_at h1 target of
                     Some (CList xs') \<Rightarrow>
                       (case py_index xs' i of
                          None \<Rightarrow> Inl IndexError
                        | Some child \<Rightarrow> st_ensure_container h1 child (next_seg # rest))
                   | _ \<Rightarrow> Inl IndexError)
           | _ \<Rightarrow> st_ensure_container h target (next_seg # rest))
      | _ \<Rightarrow> st_ensure_container h target (next_seg # rest))"

definition st_set_in_result :: "store \<Rightarrow> val \<Rightarrow> seg list \<Rightarrow> val \<Rightarrow> error + store" where
  \<comment> \<open>\<open>_set_in_result\<close>\<close>
  "st_set_in_result h result segments v =
     (if segments = [] then Inr h
      else (case st_ensure_container h result segments of
              Inl e \<Rightarrow> Inl e
            | Inr (h1, target) \<Rightarrow>
                (case last segments of
                   Key s \<Rightarrow>
                     (case cell_at h1 target of
                        Some (CDict d) \<Rightarrow> Inr (put h1 target (CDict (dict_set d s v)))
                      | _ \<Rightarrow> Inr h1)
                 | Index i \<Rightarrow>
                     (case cell_at h1 target of
                        Some (CList xs) \<Rightarrow>
                          (let xs' = (if 0 \<le> i then pad xs (nat i + 1) VNull else xs)
                           in case norm_index (length xs') i of
                                None \<Rightarrow> Inl IndexError
                              | Some j \<Rightarrow> Inr (put h1 target (CList (xs'[j := v]))))
                      | _ \<Rightarrow> Inr h1)
                 | _ \<Rightarrow> Inr h1)))"

fun st_nav_container :: "store \<Rightarrow> val \<Rightarrow> seg list \<Rightarrow> error + (store \<times> val)" where
  \<comment> \<open>the loop of \<open>_apply_spec\<close> over \<open>prefix\<close>\<close>
  "st_nav_container h container [] = Inr (h, container)"
| "st_nav_container h container (seg # rest) =
     (case seg of
        Key s \<Rightarrow>
          (case cell_at h container of
             Some (CDict d) \<Rightarrow>
               (case ci_get d s of
                  None \<Rightarrow>
                    (case alloc h (if rest = [] then CList [] else CDict []) of
                       (h1, child) \<Rightarrow>
                         st_nav_container (put h1 container (CDict (dict_set d s child))) child rest)
                | Some (actual, child) \<Rightarrow> st_nav_container h child rest)
           | _ \<Rightarrow> st_nav_container h container rest)
      | Index i \<Rightarrow>
          (case cell_at h container of
             Some (CList xs) \<Rightarrow>
               (let h1 = (if 0 \<le> i then append_dicts h container (nat i + 1 - length xs) else h)
                in case cell_at h1 container of
                     Some (CList xs') \<Rightarrow>
                       (case py_index xs' i of
                          None \<Rightarrow> Inl IndexError
                        | Some child \<Rightarrow> st_nav_container h1 child rest)
                   | _ \<Rightarrow> Inl IndexError)
           | _ \<Rightarrow> st_nav_container h container rest)
      | _ \<Rightarrow> st_nav_container h container rest)"

fun st_iterate_items :: "store \<Rightarrow> val \<Rightarrow> (nat \<times> val) list \<Rightarrow> seg list \<Rightarrow> error + store" where
  \<comment> \<open>the loop over \<open>pairs\<close> in the iteration case\<close>
  "st_iterate_items h container [] suffix = Inr h"
| "st_iterate_items h container ((j, item) # pairs) suffix =
     (case cell_at h container of
        Some (CList ys) \<Rightarrow>
          (if suffix \<noteq> []
           then (case st_get_value h item suffix of
                   Some v \<Rightarrow>
                     (if j < length ys
                      then (case (case cell_at h (ys ! j) of
                                    Some (CDict d) \<Rightarrow> (h, ys ! j)
                                  | _ \<Rightarrow>
                                      (case alloc h (CDict []) of
                                         (h1, c) \<Rightarrow> (put h1 container (CList (ys[j := c])), c))) of
                              (h2, entry) \<Rightarrow>
                                (case st_set_in_result h2 entry suffix v of
                                   Inl e \<Rightarrow> Inl e
                                 | Inr h3 \<Rightarrow> st_iterate_items h3 container pairs suffix))
                      else Inl IndexError)
                 | None \<Rightarrow> st_iterate_items h container pairs suffix)
           else (if j < length ys
                 then st_iterate_items (put h container (CList (ys[j := item]))) container pairs suffix
                 else Inl IndexError))
      | _ \<Rightarrow> Inl IndexError)"

fun st_slice_items :: "store \<Rightarrow> val \<Rightarrow> (nat \<times> val) list \<Rightarrow> seg list \<Rightarrow> error + store" where
  \<comment> \<open>the loop over \<open>pairs\<close> in the slice case\<close>
  "st_slice_items h container [] suffix = Inr h"
| "st_slice_items h container ((j, item) # pairs) suffix =
     (if suffix \<noteq> []
      then (case st_get_value h item suffix of
              Some v \<Rightarrow>
                (case alloc h (CDict []) of
                   (h1, entry) \<Rightarrow>
                     (case st_set_in_result h1 entry suffix v of
                        Inl e \<Rightarrow> Inl e
                      | Inr h2 \<Rightarrow>
                          (case cell_at h2 container of
                             Some (CList ys) \<Rightarrow>
                               st_slice_items (put h2 container (CList (ys @ [entry]))) container
                                 pairs suffix
                           | _ \<Rightarrow> Inl IndexError)))
            | None \<Rightarrow> st_slice_items h container pairs suffix)
      else (case cell_at h container of
              Some (CList ys) \<Rightarrow>
                st_slice_items (put h container (CList (ys @ [item]))) container pairs suffix
            | _ \<Rightarrow> Inl IndexError))"

definition st_apply_segments :: "store \<Rightarrow> val \<Rightarrow> seg list \<Rightarrow> val \<Rightarrow> error + store" where
  \<comment> \<open>\<open>_apply_spec\<close> after the spec is parsed\<close>
  "st_apply_segments h data segments result =
     (if segments = [] then Inr h
      else (case dropWhile (\<lambda>seg. \<not> is_coll seg) segments of
              [] \<Rightarrow>
                (case st_get_value h data segments of
                   Some v \<Rightarrow> st_set_in_result h result segments v
                 | None \<Rightarrow> Inr h)
            | coll_seg # suffix \<Rightarrow>
                (let prefix = takeWhile (\<lambda>seg. \<not> is_coll seg) segments
                 in case st_get_value h data prefix of
                      None \<Rightarrow> Inr h
                    | Some arr \<Rightarrow>
                        (case cell_at h arr of
                           Some (CList elems) \<Rightarrow>
                             (let pairs = resolve_list_segment elems coll_seg
                              in if pairs = [] then Inr h
                                 else (case st_nav_container h result prefix of
                                         Inl e \<Rightarrow> Inl e
                                       | Inr (h1, container) \<Rightarrow>
                                           (case cell_at h1 container of
                                              Some (CList ys) \<Rightarrow>
                                                (if coll_seg = Iterate
                                                 then st_iterate_items
                                                        (append_dicts h1 container
                                                           ((case cell_at h1 arr of
                                                               Some (CList elems') \<Rightarrow> length elems'
                                                             | _ \<Rightarrow> 0) - length ys))
                                                        container pairs suffix
                                                 else st_slice_items h1 container pairs suffix)
                                            | _ \<Rightarrow> Inr h1)))
                         | _ \<Rightarrow> Inr h))))"

fun st_apply_specs :: "store \<Rightarrow> val \<Rightarrow> string list \<Rightarrow> val \<Rightarrow> error + store" where
  \<comment> \<open>\<open>for spec in cleaned: _apply_spec(data, spec, result)\<close>\<close>
  "st_apply_specs h data [] result = Inr h"
| "st_apply_specs h data (spec # specs) result =
     (case parse_path_segments spec of
        Inl e \<Rightarrow> Inl e
      | Inr segments \<Rightarrow>
          (case st_apply_segments h data segments result of
             Inl e \<Rightarrow> Inl e
           | Inr h1 \<Rightarrow> st_apply_specs h1 data specs result))"

definition st_filter_response :: "store \<Rightarrow> val \<Rightarrow> string list \<Rightarrow> error + (store \<times> val)" where
  \<comment> \<open>\<open>filter_response\<close>: the store after the call and the value returned\<close>
  "st_filter_response h data field_specs =
     (if field_specs = [] then Inr (h, data)
      else (let cleaned = filter (\<lambda>s. s \<noteq> []) (map strip field_specs)
            in if cleaned = [] \<or> ''*'' \<in> set cleaned then Inr (h, data)
               else (case cell_at h data of
                       Some (CDict d) \<Rightarrow>
                         (case alloc h (CDict []) of
                            (h1, result) \<Rightarrow>
                              map_result (\<lambda>h2. (h2, result)) (st_apply_specs h1 data cleaned result))
                     | _ \<Rightarrow> Inr (h, data))))"

definition run_filter :: "json \<Rightarrow> string list \<Rightarrow> error + (json option \<times> json option)" where
  \<comment> \<open>\<open>filter_response\<close> run on a freshly decoded document: what the input denotes after the call,
      and the value returned\<close>
  "run_filter data field_specs =
     (case load [] data of
        (h, v) \<Rightarrow>
          map_result (\<lambda>(h1, r). (read_back (length h1) h1 v, read_back (length h1) h1 r))
            (st_filter_response h v field_specs))"


text \<open>
  The two models agree on a call when the store model leaves the input as it was and returns
  the document that the value model returns, or both raise the same exception.
\<close>

definition agrees :: "json \<Rightarrow> string list \<Rightarrow> bool" where
  "agrees data specs =
     (run_filter data specs = map_result (\<lambda>r. (Some data, Some r)) (filter_response data specs))"

section \<open>Notions used in the statements about the projection\<close>

text \<open>
  The first three definitions follow the wording of the specification, not the source: the
  nested objects along a path of keys, the segments of a path without a collection point, and
  the paths in which no Index segment directly follows another. \<open>fresh_for\<close> and \<open>shape\<close> serve
  the proofs only.
\<close>

fun nest :: "string list \<Rightarrow> json \<Rightarrow> json" where
  "nest [] x = x"
| "nest (k # ks) x = JObject [(k, nest ks x)]"

definition simple_seg :: "seg \<Rightarrow> bool" where
  "simple_seg seg = (case seg of Key _ \<Rightarrow> True | Index i \<Rightarrow> 0 \<le> i | _ \<Rightarrow> False)"

fun no_adjacent_index :: "seg list \<Rightarrow> bool" where
  "no_adjacent_index (Index i # Index j # rest) = False"
| "no_adjacent_index (seg # rest) = no_adjacent_index rest"
| "no_adjacent_index [] = True"

definition fresh_for :: "seg \<Rightarrow> json \<Rightarrow> bool" where
  "fresh_for seg t = (case seg of Key _ \<Rightarrow> t = JObject [] | Index i \<Rightarrow> t = JArray [] | _ \<Rightarrow> False)"

definition shape :: "json \<Rightarrow> nat" where
  "shape v = (case v of JObject _ \<Rightarrow> 2 | JArray _ \<Rightarrow> 1 | _ \<Rightarrow> 0)"

section \<open>Properties of \<open>parse_assert\<close>\<close>

lemma occurs_at_0: "occurs_at sub s 0 = startswith s sub"
proof -
  have "length sub \<le> length s" if "take (length sub) s = sub"
  proof -
    from that have "length (take (length sub) s) = length sub" by simp
    then show ?thesis by simp
  qed
  then show ?thesis
    by (auto simp: occurs_at_def startswith_def)
qed

lemma occurs_at_Suc: "occurs_at sub (c # cs) (Suc i) = occurs_at sub cs i"
  by (simp add: occurs_at_def)

lemma occurs_at_Nil: "occurs_at sub [] i = (sub = [] \<and> i = 0)"
  by (auto simp: occurs_at_def)

lemma str_find_Some: "str_find s sub = Some i \<Longrightarrow> first_occurrence sub s i"
proof (induction s arbitrary: i)
  case Nil
  then show ?case
    by (simp add: first_occurrence_def occurs_at_Nil split: if_splits)
next
  case (Cons c cs)
  show ?case
  proof (cases "startswith (c # cs) sub")
    case True
    with Cons.prems show ?thesis
      by (simp add: first_occurrence_def occurs_at_0)
  next
    case False
    with Cons.prems obtain k where k: "str_find cs sub = Some k" "i = Suc k"
      by auto
    from Cons.IH [OF k(1)] have fo: "first_occurrence sub cs k" .
    have "\<not> occurs_at sub (c # cs) j" if "j < Suc k" for j
    proof (cases j)
      case 0
      with False show ?thesis by (simp add: occurs_at_0)
    next
      case (Suc j')
      with that fo show ?thesis
        by (simp add: occurs_at_Suc first_occurrence_def)
    qed
    with fo k show ?thesis
      by (simp add: first_occurrence_def occurs_at_Suc)
  qed
qed

lemma str_find_None: "str_find s sub = None \<Longrightarrow> \<not> occurs_at sub s i"
proof (induction s arbitrary: i)
  case Nil
  then show ?case by (simp add: occurs_at_Nil split: if_splits)
next
  case (Cons c cs)
  then show ?case
    by (cases i) (auto simp: occurs_at_0 occurs_at_Suc split: if_splits)
qed

lemma first_occurrence_unique:
  "first_occurrence sub s i \<Longrightarrow> first_occurrence sub s j \<Longrightarrow> i = j"
  unfolding first_occurrence_def by (meson nat_neq_iff)

lemma str_find_iff: "str_find s sub = Some i \<longleftrightarrow> first_occurrence sub s i"
proof
  assume fo: "first_occurrence sub s i"
  show "str_find s sub = Some i"
  proof (cases "str_find s sub")
    case None
    with fo show ?thesis
      using str_find_None [of s sub i] by (simp add: first_occurrence_def)
  next
    case (Some k)
    with fo show ?thesis
      using str_find_Some [of s sub k] first_occurrence_unique by blast
  qed
qed (rule str_find_Some)

lemma str_find_None_iff: "str_find s sub = None \<longleftrightarrow> (\<forall>i. \<not> occurs_at sub s i)"
proof
  assume "\<forall>i. \<not> occurs_at sub s i"
  then show "str_find s sub = None"
    using str_find_Some [of s sub] by (cases "str_find s sub") (auto simp: first_occurrence_def)
qed (simp add: str_find_None)

text \<open>
  What the specification says of \<open>parse_assert\<close> itself holds. It splits the expression at the
  first occurrence of \<open>!=\<close> when there is one, otherwise at the first occurrence of \<open>=\<close>, and
  returns the stripped text before the delimiter, the operator and the stripped text after it
  (which may contain \<open>=\<close>); it raises exactly when the expression contains neither \<open>=\<close> nor
  \<open>!=\<close>. The two examples of the specification are included.
\<close>

theorem parse_assert_splits:
  "(\<forall>i. first_occurrence ''!='' e i \<longrightarrow>
      parse_assert e = Inr (strip (take i e), ''!='', strip (drop (i + 2) e)))
   \<and> ((\<forall>i. \<not> occurs_at ''!='' e i) \<longrightarrow>
        (\<forall>i. first_occurrence ''='' e i \<longrightarrow>
           parse_assert e = Inr (strip (take i e), ''='', strip (drop (i + 1) e))))
   \<and> ((\<exists>err. parse_assert e = Inl err) \<longleftrightarrow>
        (\<forall>i. \<not> occurs_at ''='' e i \<and> \<not> occurs_at ''!='' e i))
   \<and> parse_assert ''status!=500'' = Inr (''status'', ''!='', ''500'')
   \<and> parse_assert ''body.url=http://x?a=1'' = Inr (''body.url'', ''='', ''http://x?a=1'')"
proof (intro conjI allI impI)
  fix i assume "first_occurrence ''!='' e i"
  then have "str_find e ''!='' = Some i" by (simp add: str_find_iff)
  then show "parse_assert e = Inr (strip (take i e), ''!='', strip (drop (i + 2) e))"
    by (simp add: parse_assert_def)
next
  fix i assume "\<forall>i. \<not> occurs_at ''!='' e i" and "first_occurrence ''='' e i"
  then have "str_find e ''!='' = None" "str_find e ''='' = Some i"
    by (simp_all add: str_find_iff str_find_None_iff)
  then show "parse_assert e = Inr (strip (take i e), ''='', strip (drop (i + 1) e))"
    by (simp add: parse_assert_def)
next
  show "(\<exists>err. parse_assert e = Inl err) \<longleftrightarrow>
        (\<forall>i. \<not> occurs_at ''='' e i \<and> \<not> occurs_at ''!='' e i)"
  proof -
    have "(\<exists>err. parse_assert e = Inl err) \<longleftrightarrow>
          str_find e ''!='' = None \<and> str_find e ''='' = None"
      by (auto simp: parse_assert_def split: option.splits)
    then show ?thesis
      by (auto simp: str_find_None_iff)
  qed
next
  show "parse_assert ''status!=500'' = Inr (''status'', ''!='', ''500'')"
    by code_simp
next
  show "parse_assert ''body.url=http://x?a=1'' = Inr (''body.url'', ''='', ''http://x?a=1'')"
    by code_simp
qed

theorem parse_assert_splits_witness:
  "first_occurrence ''!='' ''a!=b'' 1 \<and> parse_assert ''a!=b'' = Inr (''a'', ''!='', ''b'')
   \<and> (\<forall>i. \<not> occurs_at ''!='' ''k=v=w'' i) \<and> first_occurrence ''='' ''k=v=w'' 1
   \<and> parse_assert ''k=v=w'' = Inr (''k'', ''='', ''v=w'')
   \<and> (\<forall>i. \<not> occurs_at ''='' ''nodelimiter'' i \<and> \<not> occurs_at ''!='' ''nodelimiter'' i)
   \<and> (\<exists>err. parse_assert ''nodelimiter'' = Inl err)"
proof -
  have a: "first_occurrence ''!='' ''a!=b'' 1"
    by (simp add: str_find_iff [symmetric] startswith_def)
  have b: "\<forall>i. \<not> occurs_at ''!='' ''k=v=w'' i"
    by (simp add: str_find_None_iff [symmetric] startswith_def)
  have c: "first_occurrence ''='' ''k=v=w'' 1"
    by (simp add: str_find_iff [symmetric] startswith_def)
  have d: "\<forall>i. \<not> occurs_at ''='' ''nodelimiter'' i \<and> \<not> occurs_at ''!='' ''nodelimiter'' i"
    using str_find_None_iff [of "''nodelimiter''" "''=''"]
      str_find_None_iff [of "''nodelimiter''" "''!=''"]
    by (simp add: startswith_def)
  from a parse_assert_splits [of "''a!=b''"]
  have "parse_assert ''a!=b'' = Inr (strip (take 1 ''a!=b''), ''!='', strip (drop (1 + 2) ''a!=b''))"
    by blast
  moreover from b c parse_assert_splits [of "''k=v=w''"]
  have "parse_assert ''k=v=w'' = Inr (strip (take 1 ''k=v=w''), ''='', strip (drop (1 + 1) ''k=v=w''))"
    by blast
  moreover from d parse_assert_splits [of "''nodelimiter''"]
  have "\<exists>err. parse_assert ''nodelimiter'' = Inl err"
    by blast
  ultimately show ?thesis
    using a b c d by (simp add: strip_def is_space_def)
qed

text \<open>
  Claim C7 says that \<open>parse_assert\<close> splits at the first \<open>!=\<close>, otherwise at the first \<open>=\<close>,
  raises exactly when there is neither, and that this raise is the only hard failure of the
  core. The last part does not hold of the code. The bracket \<open>[-:]\<close> matches \<open>_SLICE_RE\<close> with
  the first group \<open>-\<close>, and \<open>int("-")\<close> raises \<open>ValueError\<close>, which \<open>filter_response\<close> lets
  through; the sibling bracket \<open>[-]\<close> matches neither pattern and becomes a key. And a suffix
  that ends in a negative index makes \<open>_set_in_result\<close> assign into an empty list, which raises
  \<open>IndexError\<close>, although \<open>_apply_spec\<close> notes that a negative index must be normalised before
  the result tree is built.
\<close>

theorem dash_slice_raises:
  "filter_response (JObject [(''a'', JArray [JNumber 1])]) [''a[-:]'']
     = Inl (ValueError (''invalid literal for int() with base 10: '' @ [CHR 0x27] @ ''-'' @ [CHR 0x27]))
   \<and> parse_path_segments ''a[-]'' = Inr [Key ''a'', Key ''-'']
   \<and> filter_response (JObject [(''a'', JArray [JNumber 1])]) [''a[-]''] = Inr (JObject [])
   \<and> filter_response (JObject [(''data'', JArray [JObject [(''tags'', JArray [JString ''x''])]])])
         [''data[].tags[-1]''] = Inl IndexError"
  by code_simp

section \<open>Sharing between the input and the result\<close>

text \<open>
  Claim C1. \<open>filter_response\<close> is claimed never to mutate its input. On the document
  \<open>{"user": {"Name": "Bob"}}\<close> with the specs \<open>user\<close> and \<open>user.name\<close>, the first spec stores the
  input's own \<open>user\<close> object in the result and the second writes the key \<open>name\<close> through it: after
  the call the input reads \<open>{"user": {"Name": "Bob", "name": "Bob"}}\<close>.
\<close>

theorem filter_response_mutates_input:
  "run_filter (JObject [(''user'', JObject [(''Name'', JString ''Bob'')])]) [''user'', ''user.name'']
     = Inr (Some (JObject [(''user'', JObject [(''Name'', JString ''Bob''), (''name'', JString ''Bob'')])]),
            Some (JObject [(''user'', JObject [(''Name'', JString ''Bob''), (''name'', JString ''Bob'')])]))"
  by code_simp

text \<open>
  On the examples of the specification and on the inputs used further down, the value model
  and the store model agree.
\<close>

lemma store_model_examples:
  "agrees (JObject [(''data'', JArray [JObject [(''id'', JNumber 1), (''name'', JString ''A'')],
                                       JObject [(''id'', JNumber 2), (''name'', JString ''B'')]])])
      [''data[].id'']"
  "agrees (JObject [(''data'', JArray [JObject [(''id'', JNumber 1), (''name'', JString ''A'')],
                                       JObject [(''id'', JNumber 2), (''name'', JString ''B'')]])])
      [''data[].id'', ''data[].name'']"
  "agrees (JObject [(''items'', JArray [JObject [(''id'', JNumber 1)], JObject [(''id'', JNumber 2)],
                                        JObject [(''id'', JNumber 3)]])])
      [''items[-1].id'']"
  "agrees (JObject [(''items'', JArray [JObject [(''id'', JNumber 1)], JObject [(''id'', JNumber 2)],
                                        JObject [(''id'', JNumber 3)]])])
      [''items[1:3]'']"
  "agrees (JObject [(''items'', JArray [JObject [(''id'', JNumber 1)], JObject [(''id'', JNumber 2)],
                                        JObject [(''id'', JNumber 3)]])])
      [''items[1:3]'', ''items[1:3]'']"
  "agrees (JObject [(''items'', JArray [JObject [(''id'', JNumber 1)], JObject [(''x'', JNumber 2)]])])
      [''items[0:2].id'']"
  "agrees (JObject [(''Token'', JString ''abc'')]) [''token'']"
  "agrees (JObject [(''a'', JArray [JArray [JNumber 10, JNumber 20]])]) [''a[0][1]'']"
  "agrees (JObject [(''a'', JArray [JArray [JNumber 10, JNumber 20]])]) [''a[0][1:]'']"
  "agrees (JObject [(''data'', JArray [])]) [''data[]'']"
  "agrees (JObject [(''user'', JObject [(''tags'', JArray [JString ''a'', JString ''b''])])])
      [''User.tags[1]'', ''User.tags[1]'']"
  "agrees (JObject [(''id'', JNumber 1), (''name'', JString ''Alice'')]) [''nonexistent'']"
  "agrees (JObject [(''data'', JArray [JObject [(''id'', JNumber 1), (''name'', JString ''A'')],
                                       JObject [(''id'', JNumber 2), (''name'', JString ''B'')]])])
      [''data[].name'', ''data[].id'']"
  "agrees (JObject [(''User'', JObject [(''Name'', JString ''Bob'')]), (''meta'', JArray [JNumber 7])])
      [''user.name'', ''meta[0]'']"
  "agrees (JObject [(''User'', JObject [(''Name'', JString ''Bob'')]), (''meta'', JArray [JNumber 7])])
      [''meta[0]'', ''user.name'']"
  "agrees (JObject [(''a'', JObject [(''b'', JNumber 1), (''c'', JNumber 2)])]) [''a.b'', ''A.c'']"
  "agrees (JObject [(''a'', JObject [(''b'', JNumber 1), (''c'', JNumber 2)])]) [''A.c'', ''a.b'']"
  "agrees (JObject [(''rows'', JArray [JObject [(''tag'', JString ''x'')], JObject [(''n'', JNumber 7)]])])
      [''rows[].Tag'']"
  by (code_simp)+

section \<open>Properties of the snapshot diff\<close>

lemma set_all_keys: "set (all_keys old new) = fst ` set old \<union> fst ` set new"
  by (simp add: all_keys_def)

lemma diff_line_empty:
  "((case ov of
       JObject od \<Rightarrow> (case nv of JObject nd \<Rightarrow> R od nd | _ \<Rightarrow> if \<not> py_eq ov nv then [l] else [])
     | _ \<Rightarrow> if \<not> py_eq ov nv then [l] else []) = [])
   \<longleftrightarrow> (case ov of
         JObject od \<Rightarrow> (case nv of JObject nd \<Rightarrow> R od nd = [] | _ \<Rightarrow> py_eq ov nv)
       | _ \<Rightarrow> py_eq ov nv)"
  by (cases ov; cases nv; simp)

lemma diff_dicts_empty_unfold:
  "diff_dicts str_of dumps prefix old new = [] \<longleftrightarrow>
     (\<forall>key \<in> fst ` set old \<union> fst ` set new.
        \<exists>ov nv. map_of old key = Some ov \<and> map_of new key = Some nv \<and>
          (case ov of
             JObject od \<Rightarrow>
               (case nv of
                  JObject nd \<Rightarrow> diff_dicts str_of dumps (prefix @ ''.'' @ key) od nd = []
                | _ \<Rightarrow> py_eq ov nv)
           | _ \<Rightarrow> py_eq ov nv))"
  apply (subst diff_dicts.simps)
  apply (simp only: concat_eq_Nil_conv set_map set_all_keys Let_def)
  apply (simp only: Ball_image_comp comp_def prod.case)
  apply (rule ball_cong [OF refl])
  subgoal for key
    apply (cases "map_of old key")
     apply simp
    apply (cases "map_of new key")
     apply simp
    apply (simp only: option.case diff_line_empty)
    apply simp
    done
  done


lemma py_eq_items_iff:
  "py_eq_items d e \<longleftrightarrow> (\<forall>(k, v) \<in> set d. \<exists>w. map_of e k = Some w \<and> py_eq v w)"
  by (induction d) (auto split: option.splits)

lemma distinct_keys_length:
  assumes "distinct (map fst d)" "distinct (map fst e)" "fst ` set d = fst ` set e"
  shows "length d = length e"
proof -
  have "length d = card (set (map fst d))" using assms(1) by (metis distinct_card length_map)
  also have "\<dots> = card (set (map fst e))" using assms(3) by simp
  also have "\<dots> = length e" using assms(2) by (metis distinct_card length_map)
  finally show ?thesis .
qed

lemma distinct_keys_subset_eq:
  assumes "distinct (map fst d)" "distinct (map fst e)" "length d = length e"
    "fst ` set d \<subseteq> fst ` set e"
  shows "fst ` set d = fst ` set e"
proof -
  have "card (fst ` set d) = length d" using assms(1) by (metis distinct_card length_map set_map)
  moreover have "card (fst ` set e) = length e" using assms(2) by (metis distinct_card length_map set_map)
  ultimately show ?thesis
    using assms(3,4) by (simp add: card_subset_eq)
qed

lemma py_eq_object_iff:
  assumes "distinct (map fst d)" "distinct (map fst e)"
  shows "py_eq (JObject d) (JObject e) \<longleftrightarrow>
     (\<forall>key \<in> fst ` set d \<union> fst ` set e.
        \<exists>ov nv. map_of d key = Some ov \<and> map_of e key = Some nv \<and> py_eq ov nv)"
    (is "?L \<longleftrightarrow> ?R")
proof
  assume L: ?L
  then have len: "length d = length e" and items: "py_eq_items d e" by simp_all
  have sub: "fst ` set d \<subseteq> fst ` set e"
  proof
    fix k assume "k \<in> fst ` set d"
    then obtain v where "(k, v) \<in> set d" by auto
    with items obtain w where "map_of e k = Some w" by (auto simp: py_eq_items_iff)
    then show "k \<in> fst ` set e" by (metis map_of_SomeD fst_conv image_eqI)
  qed
  with assms len have keys: "fst ` set d = fst ` set e" by (rule distinct_keys_subset_eq)
  show ?R
  proof
    fix key assume "key \<in> fst ` set d \<union> fst ` set e"
    with keys have "key \<in> fst ` set d" by simp
    then obtain v where v: "(key, v) \<in> set d" by auto
    with assms(1) have "map_of d key = Some v" by simp
    moreover from items v obtain w where "map_of e key = Some w" "py_eq v w"
      by (auto simp: py_eq_items_iff)
    ultimately show "\<exists>ov nv. map_of d key = Some ov \<and> map_of e key = Some nv \<and> py_eq ov nv"
      by simp
  qed
next
  assume R: ?R
  have keys: "fst ` set d = fst ` set e"
  proof (rule set_eqI)
    fix k
    show "k \<in> fst ` set d \<longleftrightarrow> k \<in> fst ` set e"
      using R by (metis UnI1 UnI2 map_of_SomeD fst_conv image_eqI)
  qed
  with assms have "length d = length e" by (rule distinct_keys_length)
  moreover have "py_eq_items d e"
    unfolding py_eq_items_iff
  proof safe
    fix k v assume kv: "(k, v) \<in> set d"
    then have "k \<in> fst ` set d \<union> fst ` set e" by force
    with R obtain ov nv where "map_of d k = Some ov" "map_of e k = Some nv" "py_eq ov nv"
      by blast
    moreover from kv assms(1) have "map_of d k = Some v" by simp
    ultimately show "\<exists>w. map_of e k = Some w \<and> py_eq v w" by simp
  qed
  ultimately show ?L by simp
qed

lemma wf_json_lookup: "wf_json (JObject d) \<Longrightarrow> map_of d k = Some v \<Longrightarrow> wf_json v"
  by (auto dest!: map_of_SomeD) 

lemma diff_dicts_empty_iff:
  "wf_json (JObject old) \<Longrightarrow> wf_json (JObject new) \<Longrightarrow>
   diff_dicts str_of dumps prefix old new = [] \<longleftrightarrow> py_eq (JObject old) (JObject new)"
proof (induction str_of dumps prefix old new rule: diff_dicts.induct)
  case (1 str_of dumps prefix old new)
  have inner: "(case ov of
             JObject od \<Rightarrow>
               (case nv of
                  JObject nd \<Rightarrow> diff_dicts str_of dumps (prefix @ ''.'' @ key) od nd = []
                | _ \<Rightarrow> py_eq ov nv)
           | _ \<Rightarrow> py_eq ov nv) \<longleftrightarrow> py_eq ov nv"
    if k: "key \<in> fst ` set old \<union> fst ` set new"
      and o: "map_of old key = Some ov" and n: "map_of new key = Some nv" for key ov nv
  proof (cases "\<exists>od nd. ov = JObject od \<and> nv = JObject nd")
    case True
    then obtain od nd where eq: "ov = JObject od" "nv = JObject nd" by blast
    from k have "key \<in> set (all_keys old new)" by (simp add: set_all_keys)
    moreover have "wf_json (JObject od)" "wf_json (JObject nd)"
      using "1.prems" o n eq wf_json_lookup by blast+
    ultimately have "diff_dicts str_of dumps (prefix @ ''.'' @ key) od nd = []
        \<longleftrightarrow> py_eq (JObject od) (JObject nd)"
      using "1.IH" [of key "prefix @ ''.'' @ key" ov nv ov nv od nd] o n eq by simp
    with eq show ?thesis by simp
  next
    case False
    then show ?thesis by (auto split: json.splits)
  qed
  have "diff_dicts str_of dumps prefix old new = [] \<longleftrightarrow>
     (\<forall>key \<in> fst ` set old \<union> fst ` set new.
        \<exists>ov nv. map_of old key = Some ov \<and> map_of new key = Some nv \<and>
          (case ov of
             JObject od \<Rightarrow>
               (case nv of
                  JObject nd \<Rightarrow> diff_dicts str_of dumps (prefix @ ''.'' @ key) od nd = []
                | _ \<Rightarrow> py_eq ov nv)
           | _ \<Rightarrow> py_eq ov nv))"
    by (rule diff_dicts_empty_unfold)
  also have "\<dots> \<longleftrightarrow>
     (\<forall>key \<in> fst ` set old \<union> fst ` set new.
        \<exists>ov nv. map_of old key = Some ov \<and> map_of new key = Some nv \<and> py_eq ov nv)"
  proof (intro ball_cong refl)
    fix key assume k: "key \<in> fst ` set old \<union> fst ` set new"
    show "(\<exists>ov nv. map_of old key = Some ov \<and> map_of new key = Some nv \<and>
          (case ov of
             JObject od \<Rightarrow>
               (case nv of
                  JObject nd \<Rightarrow> diff_dicts str_of dumps (prefix @ ''.'' @ key) od nd = []
                | _ \<Rightarrow> py_eq ov nv)
           | _ \<Rightarrow> py_eq ov nv))
       = (\<exists>ov nv. map_of old key = Some ov \<and> map_of new key = Some nv \<and> py_eq ov nv)"
      using inner [OF k] by blast
  qed
  also have "\<dots> \<longleftrightarrow> py_eq (JObject old) (JObject new)"
    using "1.prems" by (subst py_eq_object_iff) simp_all
  finally show ?case .
qed


lemma py_eq_list_refl: "(\<And>x. x \<in> set xs \<Longrightarrow> py_eq x x) \<Longrightarrow> py_eq_list xs xs"
  by (induction xs) auto

lemma py_eq_refl: "wf_json v \<Longrightarrow> py_eq v v"
proof (induction v)
  case (JArray xs)
  then show ?case by (auto intro: py_eq_list_refl)
next
  case (JObject d)
  have "\<exists>w. map_of d k = Some w \<and> py_eq v w" if "(k, v) \<in> set d" for k v
  proof -
    from that JObject.prems have "map_of d k = Some v" by simp
    moreover from that JObject.prems have "wf_json v" by force
    with that JObject.IH [of "(k, v)" v] have "py_eq v v" by simp
    ultimately show ?thesis by simp
  qed
  then show ?case by (auto simp: py_eq_items_iff)
qed simp_all

lemma diff_snapshot_empty:
  assumes "wf_json (dict_get s ''body'')" "wf_json (body r)"
  shows "diff_snapshot str_of dumps s r = [] \<longleftrightarrow>
           py_eq (dict_get s ''status_code'') (JNumber (status_code r))
           \<and> py_eq (dict_get s ''body'') (body r)"
proof (cases "\<exists>od nd. dict_get s ''body'' = JObject od \<and> body r = JObject nd")
  case True
  then obtain od nd where eq: "dict_get s ''body'' = JObject od" "body r = JObject nd" by blast
  with assms have "diff_dicts str_of dumps ''body'' od nd = [] \<longleftrightarrow> py_eq (JObject od) (JObject nd)"
    by (simp add: diff_dicts_empty_iff)
  with eq show ?thesis
    by (simp add: diff_snapshot_def Let_def)
next
  case False
  then have "(case (dict_get s ''body'', body r) of
            (JObject od, JObject nd) \<Rightarrow> diff_dicts str_of dumps ''body'' od nd
          | _ \<Rightarrow> X) = X" for X :: "string list"
    by (cases "dict_get s ''body''"; cases "body r"; simp)
  then show ?thesis
    by (simp add: diff_snapshot_def Let_def)
qed

text \<open>
  Claim C9, as amended. For a snapshot and a live response whose bodies are well-formed (the
  keys of every object are distinct, as in every Python dict), \<open>diff_snapshot\<close> returns the
  empty list exactly when the status codes are equal and the bodies are equal under Python's
  \<open>==\<close> on decoded JSON, the comparison the differ itself makes: the order of keys is
  immaterial, and \<open>true\<close> equals \<open>1\<close> and \<open>false\<close> equals \<open>0\<close>. In particular a snapshot replayed
  as the very same status code and body gives the empty list, and any difference under \<open>==\<close> in
  the status code or in the bodies gives at least one line.
\<close>

theorem diff_snapshot_empty_iff_equal:
  assumes "wf_json (dict_get s ''body'')" and "wf_json (body r)"
  shows "(diff_snapshot str_of dumps s r = [] \<longleftrightarrow>
            py_eq (dict_get s ''status_code'') (JNumber (status_code r))
            \<and> py_eq (dict_get s ''body'') (body r))
         \<and> (dict_get s ''status_code'' = JNumber (status_code r) \<and> dict_get s ''body'' = body r
              \<longrightarrow> diff_snapshot str_of dumps s r = [])"
proof
  show "diff_snapshot str_of dumps s r = [] \<longleftrightarrow>
            py_eq (dict_get s ''status_code'') (JNumber (status_code r))
            \<and> py_eq (dict_get s ''body'') (body r)"
    using assms by (rule diff_snapshot_empty)
  show "dict_get s ''status_code'' = JNumber (status_code r) \<and> dict_get s ''body'' = body r
              \<longrightarrow> diff_snapshot str_of dumps s r = []"
    using assms py_eq_refl [of "body r"] by (auto simp: diff_snapshot_empty)
qed

theorem diff_snapshot_empty_iff_equal_witness:
  "wf_json (dict_get [(''status_code'', JNumber 200), (''headers'', JObject []),
                      (''body'', JObject [(''a'', JNumber 1), (''b'', JBool True)])] ''body'')
   \<and> wf_json (body \<lparr>status_code = 200, headers = [], body = JObject [(''b'', JBool True), (''a'', JNumber 1)],
                     error = None, raw_text = []\<rparr>)
   \<and> diff_snapshot (\<lambda>v. []) (\<lambda>v. [])
        [(''status_code'', JNumber 200), (''headers'', JObject []),
         (''body'', JObject [(''a'', JNumber 1), (''b'', JBool True)])]
        \<lparr>status_code = 200, headers = [], body = JObject [(''b'', JBool True), (''a'', JNumber 1)],
         error = None, raw_text = []\<rparr> = []
   \<and> diff_snapshot (\<lambda>v. []) (\<lambda>v. [])
        [(''status_code'', JNumber 200), (''headers'', JObject []),
         (''body'', JObject [(''a'', JNumber 1), (''b'', JBool True)])]
        \<lparr>status_code = 200, headers = [], body = JObject [(''a'', JNumber 2), (''b'', JBool True)],
         error = None, raw_text = []\<rparr> \<noteq> []"
proof -
  let ?s = "[(''status_code'', JNumber 200), (''headers'', JObject []),
             (''body'', JObject [(''a'', JNumber 1), (''b'', JBool True)])]"
  let ?r = "\<lparr>status_code = 200, headers = [], body = JObject [(''b'', JBool True), (''a'', JNumber 1)],
             error = None, raw_text = []\<rparr>"
  let ?r' = "\<lparr>status_code = 200, headers = [], body = JObject [(''a'', JNumber 2), (''b'', JBool True)],
             error = None, raw_text = []\<rparr>"
  have ws: "wf_json (dict_get ?s ''body'')" by (simp add: dict_get_def)
  have wr: "wf_json (body ?r)" by simp
  have wr': "wf_json (body ?r')" by simp
  from diff_snapshot_empty_iff_equal [OF ws wr, of "\<lambda>v. []" "\<lambda>v. []"]
  have "diff_snapshot (\<lambda>v. []) (\<lambda>v. []) ?s ?r = []" by (simp add: dict_get_def)
  moreover from diff_snapshot_empty_iff_equal [OF ws wr', of "\<lambda>v. []" "\<lambda>v. []"]
  have "diff_snapshot (\<lambda>v. []) (\<lambda>v. []) ?s ?r' \<noteq> []" by (simp add: dict_get_def)
  ultimately show ?thesis using ws wr by simp
qed

text \<open>
  Claim C9 as stated has the empty list exactly when snapshot and response are identical. The
  differ compares with Python's \<open>!=\<close>: the snapshot body \<open>{"a": true}\<close> against the live body
  \<open>{"a": 1}\<close>, under the same status code, gives the empty list, and the two bodies are not
  the same document.
\<close>

theorem diff_snapshot_bool_number_counterexample:
  "diff_snapshot (\<lambda>v. []) (\<lambda>v. [])
      [(''status_code'', JNumber 200), (''body'', JObject [(''a'', JBool True)])]
      \<lparr>status_code = 200, headers = [], body = JObject [(''a'', JNumber 1)], error = None, raw_text = []\<rparr>
     = []
   \<and> dict_get [(''status_code'', JNumber 200), (''body'', JObject [(''a'', JBool True)])] ''body''
       \<noteq> body \<lparr>status_code = 200, headers = [], body = JObject [(''a'', JNumber 1)], error = None,
                raw_text = []\<rparr>"
  by code_simp

lemma map_of_dict_set: "map_of (dict_set d k v) k' = (if k' = k then Some v else map_of d k')"
  by (induction d) auto

lemma dict_get_dict_set: "k' \<noteq> k \<Longrightarrow> dict_get (dict_set d k v) k' = dict_get d k'"
  by (simp add: dict_get_def map_of_dict_set)

text \<open>
  Claim C10. The output of \<open>diff_snapshot\<close> depends only on the status codes and the bodies:
  two pairs of snapshot and response that agree on them give the same list whatever their
  headers, replacing the headers on both sides changes nothing, and a change of headers alone
  on an otherwise identical replay gives the empty list.
\<close>

theorem diff_snapshot_ignores_headers:
  "(dict_get s ''status_code'' = dict_get s' ''status_code'' \<and> dict_get s ''body'' = dict_get s' ''body''
      \<and> status_code r = status_code r' \<and> body r = body r'
      \<longrightarrow> diff_snapshot str_of dumps s r = diff_snapshot str_of dumps s' r')
   \<and> diff_snapshot str_of dumps (dict_set s ''headers'' hs) (r\<lparr>headers := hr\<rparr>)
        = diff_snapshot str_of dumps s r
   \<and> (wf_json (body r) \<and> dict_get s ''status_code'' = JNumber (status_code r)
        \<and> dict_get s ''body'' = body r
        \<longrightarrow> diff_snapshot str_of dumps (dict_set s ''headers'' hs) (r\<lparr>headers := hr\<rparr>) = [])"
proof (intro conjI impI)
  assume "dict_get s ''status_code'' = dict_get s' ''status_code'' \<and> dict_get s ''body'' = dict_get s' ''body''
      \<and> status_code r = status_code r' \<and> body r = body r'"
  then show "diff_snapshot str_of dumps s r = diff_snapshot str_of dumps s' r'"
    by (simp only: diff_snapshot_def)
next
  show eq: "diff_snapshot str_of dumps (dict_set s ''headers'' hs) (r\<lparr>headers := hr\<rparr>)
        = diff_snapshot str_of dumps s r"
    by (simp add: diff_snapshot_def dict_get_dict_set Let_def)
  assume "wf_json (body r) \<and> dict_get s ''status_code'' = JNumber (status_code r)
        \<and> dict_get s ''body'' = body r"
  then have "diff_snapshot str_of dumps s r = []"
    using py_eq_refl [of "body r"] by (simp add: diff_snapshot_empty)
  with eq show "diff_snapshot str_of dumps (dict_set s ''headers'' hs) (r\<lparr>headers := hr\<rparr>) = []"
    by simp
qed

theorem diff_snapshot_ignores_headers_witness:
  "diff_snapshot (\<lambda>v. ''x'') (\<lambda>v. ''y'')
      [(''status_code'', JNumber 200), (''headers'', JObject [(''ETag'', JString ''1'')]),
       (''body'', JObject [(''a'', JNumber 1)])]
      \<lparr>status_code = 404, headers = [(''ETag'', ''2'')], body = JObject [(''a'', JNumber 2)],
       error = None, raw_text = []\<rparr>
   = diff_snapshot (\<lambda>v. ''x'') (\<lambda>v. ''y'')
      [(''status_code'', JNumber 200), (''headers'', JObject [(''Date'', JString ''now'')]),
       (''body'', JObject [(''a'', JNumber 1)])]
      \<lparr>status_code = 404, headers = [(''Server'', ''z'')], body = JObject [(''a'', JNumber 2)],
       error = None, raw_text = []\<rparr>
   \<and> diff_snapshot (\<lambda>v. ''x'') (\<lambda>v. ''y'')
      (dict_set [(''status_code'', JNumber 200), (''headers'', JObject [(''ETag'', JString ''1'')]),
                 (''body'', JObject [(''a'', JNumber 1)])] ''headers'' (JObject []))
      (\<lparr>status_code = 200, headers = [(''ETag'', ''2'')], body = JObject [(''a'', JNumber 1)],
        error = None, raw_text = []\<rparr>\<lparr>headers := [(''Server'', ''z'')]\<rparr>) = []"
proof -
  let ?s = "[(''status_code'', JNumber 200), (''headers'', JObject [(''ETag'', JString ''1'')]),
       (''body'', JObject [(''a'', JNumber 1)])]"
  let ?s' = "[(''status_code'', JNumber 200), (''headers'', JObject [(''Date'', JString ''now'')]),
       (''body'', JObject [(''a'', JNumber 1)])]"
  let ?r = "\<lparr>status_code = 404, headers = [(''ETag'', ''2'')], body = JObject [(''a'', JNumber 2)],
       error = None, raw_text = []\<rparr>"
  let ?r' = "\<lparr>status_code = 404, headers = [(''Server'', ''z'')], body = JObject [(''a'', JNumber 2)],
       error = None, raw_text = []\<rparr>"
  let ?q = "\<lparr>status_code = 200, headers = [(''ETag'', ''2'')], body = JObject [(''a'', JNumber 1)],
        error = None, raw_text = []\<rparr>"
  have h: "dict_get ?s ''status_code'' = dict_get ?s' ''status_code'' \<and> dict_get ?s ''body'' = dict_get ?s' ''body''
      \<and> status_code ?r = status_code ?r' \<and> body ?r = body ?r'"
    by (simp add: dict_get_def)
  have g: "wf_json (body ?q) \<and> dict_get ?s ''status_code'' = JNumber (status_code ?q)
        \<and> dict_get ?s ''body'' = body ?q"
    by (simp add: dict_get_def)
  from h diff_snapshot_ignores_headers [of ?s ?s' ?r ?r' "\<lambda>v. ''x''" "\<lambda>v. ''y''"]
  have "diff_snapshot (\<lambda>v. ''x'') (\<lambda>v. ''y'') ?s ?r = diff_snapshot (\<lambda>v. ''x'') (\<lambda>v. ''y'') ?s' ?r'"
    by blast
  moreover from g diff_snapshot_ignores_headers [of ?s ?s ?q ?q "\<lambda>v. ''x''" "\<lambda>v. ''y''" "JObject []" "[(''Server'', ''z'')]"]
  have "diff_snapshot (\<lambda>v. ''x'') (\<lambda>v. ''y'') (dict_set ?s ''headers'' (JObject [])) (?q\<lparr>headers := [(''Server'', ''z'')]\<rparr>) = []"
    by blast
  ultimately show ?thesis by blast
qed

section \<open>Properties of \<open>evaluate_assert\<close>\<close>

lemma get_value_simple_extract:
  "list_all (\<lambda>s. \<not> is_coll_extract s) segments \<Longrightarrow>
   extract_segments data segments = (case get_value data segments of Some v \<Rightarrow> v | None \<Rightarrow> JNull)"
proof -
  assume "list_all (\<lambda>s. \<not> is_coll_extract s) segments"
  then have d: "dropWhile (\<lambda>seg. \<not> is_coll_extract seg) segments = []"
    by (simp add: list_all_iff dropWhile_eq_Nil_conv)
  show ?thesis unfolding extract_segments_def d by simp
qed

text \<open>
  For an expression that \<open>parse_assert\<close> accepts and a path that the path parser accepts,
  \<open>evaluate_assert\<close> does what the specification says for a missing field: when the path parses
  to Key and Index segments and extraction finds nothing or finds null, the actual value
  compares as the empty string, so \<open>=\<close> with an empty expected text passes. Whenever the actual
  value is resolved, the message is \<open>ASSERT PASSED: {expr}\<close> on success and
  \<open>ASSERT FAILED: {expr} (actual: {actual_str})\<close> on failure. The example of the specification,
  \<open>body.missing=\<close> against the body \<open>{"a": 1}\<close>, passes.
\<close>

theorem evaluate_assert_missing_field:
  assumes "parse_assert expr = Inr (path, oper, expected)"
  shows "(\<forall>segments.
            path \<noteq> ''status'' \<and> path \<noteq> ''body''
            \<and> parse_path_segments (strip_body_prefix path) = Inr segments
            \<and> list_all (\<lambda>s. \<not> is_coll_extract s) segments
            \<and> (get_value (body result) segments = None \<or> get_value (body result) segments = Some JNull)
            \<longrightarrow> evaluate_assert str_of expr result
                  = (if (oper = ''='') = (expected = [])
                     then Inr (True, ''ASSERT PASSED: '' @ expr)
                     else Inr (False, ''ASSERT FAILED: '' @ expr @ '' (actual: )'')))
         \<and> (\<forall>actual actual_str.
               assert_actual path result = Inr actual
               \<and> actual_str = (if actual = JNull then [] else str_of actual)
               \<longrightarrow> evaluate_assert str_of expr result
                     = (if (if oper = ''='' then actual_str = expected else actual_str \<noteq> expected)
                        then Inr (True, ''ASSERT PASSED: '' @ expr)
                        else Inr (False, ''ASSERT FAILED: '' @ expr @ '' (actual: '' @ actual_str @ '')'')))
         \<and> evaluate_assert str_of ''body.missing=''
               \<lparr>status_code = 200, headers = [], body = JObject [(''a'', JNumber 1)],
                error = None, raw_text = []\<rparr>
             = Inr (True, ''ASSERT PASSED: body.missing='')"
proof (intro conjI allI impI)
  fix segments
  assume h: "path \<noteq> ''status'' \<and> path \<noteq> ''body''
            \<and> parse_path_segments (strip_body_prefix path) = Inr segments
            \<and> list_all (\<lambda>s. \<not> is_coll_extract s) segments
            \<and> (get_value (body result) segments = None \<or> get_value (body result) segments = Some JNull)"
  then have "extract_value (body result) path = Inr JNull"
    by (auto simp: extract_value_def get_value_simple_extract)
  with h have "assert_actual path result = Inr JNull"
    by (simp add: assert_actual_def)
  with assms show "evaluate_assert str_of expr result
                  = (if (oper = ''='') = (expected = [])
                     then Inr (True, ''ASSERT PASSED: '' @ expr)
                     else Inr (False, ''ASSERT FAILED: '' @ expr @ '' (actual: )''))"
    by (auto simp: evaluate_assert_def)
next
  fix actual actual_str
  assume "assert_actual path result = Inr actual
               \<and> actual_str = (if actual = JNull then [] else str_of actual)"
  with assms show "evaluate_assert str_of expr result
                     = (if (if oper = ''='' then actual_str = expected else actual_str \<noteq> expected)
                        then Inr (True, ''ASSERT PASSED: '' @ expr)
                        else Inr (False, ''ASSERT FAILED: '' @ expr @ '' (actual: '' @ actual_str @ '')''))"
    by (simp add: evaluate_assert_def Let_def)
next
  have "parse_assert ''body.missing='' = Inr (''body.missing'', ''='', [])"
    by code_simp
  moreover have "assert_actual ''body.missing''
       \<lparr>status_code = 200, headers = [], body = JObject [(''a'', JNumber 1)],
                error = None, raw_text = []\<rparr> = Inr JNull"
    by code_simp
  ultimately show "evaluate_assert str_of ''body.missing=''
               \<lparr>status_code = 200, headers = [], body = JObject [(''a'', JNumber 1)],
                error = None, raw_text = []\<rparr>
             = Inr (True, ''ASSERT PASSED: body.missing='')"
    by (simp add: evaluate_assert_def)
qed

theorem evaluate_assert_missing_field_witness:
  "parse_assert ''body.user.email='' = Inr (''body.user.email'', ''='', [])
   \<and> parse_path_segments (strip_body_prefix ''body.user.email'') = Inr [Key ''user'', Key ''email'']
   \<and> get_value (JObject [(''user'', JObject [(''name'', JString ''Bob'')])]) [Key ''user'', Key ''email''] = None
   \<and> evaluate_assert (\<lambda>v. ''?'') ''body.user.email=''
        \<lparr>status_code = 200, headers = [], body = JObject [(''user'', JObject [(''name'', JString ''Bob'')])],
         error = None, raw_text = []\<rparr>
      = Inr (True, ''ASSERT PASSED: body.user.email='')
   \<and> assert_actual ''status'' \<lparr>status_code = 404, headers = [], body = JNull, error = None, raw_text = []\<rparr>
        = Inr (JNumber 404)
   \<and> evaluate_assert (\<lambda>v. ''404'') ''status=200''
        \<lparr>status_code = 404, headers = [], body = JNull, error = None, raw_text = []\<rparr>
      = Inr (False, ''ASSERT FAILED: status=200 (actual: 404)'')"
proof -
  let ?r = "\<lparr>status_code = 200, headers = [], body = JObject [(''user'', JObject [(''name'', JString ''Bob'')])],
         error = None, raw_text = []\<rparr>"
  let ?q = "\<lparr>status_code = 404, headers = [], body = JNull, error = None, raw_text = []\<rparr>"
  have p: "parse_assert ''body.user.email='' = Inr (''body.user.email'', ''='', [])"
    by code_simp
  have s: "parse_path_segments (strip_body_prefix ''body.user.email'') = Inr [Key ''user'', Key ''email'']"
    by code_simp
  have g: "get_value (body ?r) [Key ''user'', Key ''email''] = None"
    by code_simp
  have p2: "parse_assert ''status=200'' = Inr (''status'', ''='', ''200'')"
    by code_simp
  have a2: "assert_actual ''status'' ?q = Inr (JNumber 404)"
    by (simp add: assert_actual_def)
  from evaluate_assert_missing_field [OF p, of ?r "\<lambda>v. ''?''"] s g
  have "evaluate_assert (\<lambda>v. ''?'') ''body.user.email='' ?r = Inr (True, ''ASSERT PASSED: body.user.email='')"
    by (simp add: is_coll_extract_def)
  moreover from evaluate_assert_missing_field [OF p2, of ?q "\<lambda>v. ''404''"] a2
  have "evaluate_assert (\<lambda>v. ''404'') ''status=200'' ?q = Inr (False, ''ASSERT FAILED: status=200 (actual: 404)'')"
    by simp
  ultimately show ?thesis using p s g a2 by simp
qed

text \<open>
  Claim C8 says that \<open>evaluate_assert\<close> never throws for a missing field of a well-formed
  expression. \<open>parse_assert\<close> accepts \<open>a[-:]=\<close>, the body \<open>{"b": 1}\<close> has no field \<open>a\<close>, and
  the call raises \<open>ValueError\<close>: \<open>evaluate_assert\<close> hands the path to \<open>extract_value\<close>, whose
  parser runs \<open>int("-")\<close> on the bracket \<open>[-:]\<close>. The result does not depend on \<open>str\<close>.
\<close>

theorem evaluate_assert_raises_on_dash_slice:
  "parse_assert ''a[-:]='' = Inr (''a[-:]'', ''='', [])
   \<and> evaluate_assert str_of ''a[-:]=''
        \<lparr>status_code = 200, headers = [], body = JObject [(''b'', JNumber 1)], error = None, raw_text = []\<rparr>
      = Inl (ValueError (''invalid literal for int() with base 10: '' @ [CHR 0x27] @ ''-'' @ [CHR 0x27]))"
proof -
  have p: "parse_assert ''a[-:]='' = Inr (''a[-:]'', ''='', [])" by code_simp
  have a: "assert_actual ''a[-:]''
        \<lparr>status_code = 200, headers = [], body = JObject [(''b'', JNumber 1)], error = None, raw_text = []\<rparr>
      = Inl (ValueError (''invalid literal for int() with base 10: '' @ [CHR 0x27] @ ''-'' @ [CHR 0x27]))"
    by code_simp
  from p a show ?thesis by (simp add: evaluate_assert_def)
qed

section \<open>Properties of the projection\<close>

lemma ci_get_Nil [simp]: "ci_get [] k = None"
  by (simp add: ci_get_def)

lemma ci_get_single [simp]: "ci_get [(k, v)] k = Some (k, v)"
  by (simp add: ci_get_def)

lemma norm_index_nonneg: "0 \<le> i \<Longrightarrow> norm_index n i = (if nat i < n then Some (nat i) else None)"
  by (auto simp: norm_index_def Let_def)

lemma length_pad [simp]: "length (pad xs n v) = max (length xs) n"
  by (simp add: pad_def)

lemma nth_pad_new: "length xs \<le> j \<Longrightarrow> j < n \<Longrightarrow> pad xs n v ! j = v"
  by (simp add: pad_def nth_append)

lemma is_coll_simple: "simple_seg seg \<Longrightarrow> \<not> is_coll seg"
  by (cases seg) (auto simp: simple_seg_def is_coll_def)

lemma dropWhile_simple: "list_all simple_seg p \<Longrightarrow> dropWhile (\<lambda>seg. \<not> is_coll seg) p = []"
  by (auto simp: list_all_iff dropWhile_eq_Nil_conv is_coll_simple)

lemma set_in_result_keys:
  "ks \<noteq> [] \<Longrightarrow> ensure_container (JObject []) (map Key ks) (set_last (Key (last ks)) x) = Inr (nest ks x)"
proof (induction ks)
  case Nil
  then show ?case by simp
next
  case (Cons k ks)
  show ?case
  proof (cases ks)
    case Nil
    then show ?thesis by (simp add: set_last_def)
  next
    case (Cons k2 ks')
    with Cons.IH have "ensure_container (JObject []) (Key k2 # map Key ks') (set_last (Key (last ks)) x) = Inr (nest ks x)"
      by simp
    with Cons show ?thesis by (simp add: is_key_def)
  qed
qed

lemma set_in_result_nest:
  "ks \<noteq> [] \<Longrightarrow> set_in_result (JObject []) (map Key ks) x = Inr (nest ks x)"
  using set_in_result_keys [of ks x] by (simp add: set_in_result_def last_map)

lemma fresh_child: "simple_seg s \<Longrightarrow> fresh_for s (if is_key s then JObject [] else JArray [])"
  by (cases s) (auto simp: fresh_for_def is_key_def simple_seg_def)

lemma set_get_fresh:
  "p \<noteq> [] \<Longrightarrow> list_all simple_seg p \<Longrightarrow> no_adjacent_index p \<Longrightarrow> fresh_for (hd p) t \<Longrightarrow>
   \<exists>r. ensure_container t p (set_last (last p) x) = Inr r \<and> get_value r p = Some x"
proof (induction p arbitrary: t)
  case Nil
  then show ?case by simp
next
  case (Cons seg rest)
  show ?case
  proof (cases rest)
    case Nil
    show ?thesis
    proof (cases seg)
      case (Key k)
      with Nil Cons.prems show ?thesis
        by (simp add: set_last_def fresh_for_def)
    next
      case (Index i)
      with Cons.prems have "0 \<le> i" by (simp add: simple_seg_def)
      with Nil Index Cons.prems show ?thesis
        by (simp add: set_last_def fresh_for_def norm_index_nonneg py_index_def)
    qed (use Cons.prems in \<open>simp_all add: simple_seg_def\<close>)
  next
    case (Cons s2 rest')
    note rest = Cons
    from Cons.prems rest have s2: "simple_seg s2" by simp
    have last_eq: "last (seg # rest) = last rest" using rest by simp
    show ?thesis
    proof (cases seg)
      case (Key k)
      let ?c = "if is_key s2 then JObject [] else JArray []"
      have "no_adjacent_index rest" using Cons.prems Key rest by simp
      with Cons.IH [of ?c] Cons.prems rest s2 fresh_child [OF s2]
      obtain r where r: "ensure_container ?c rest (set_last (last rest) x) = Inr r"
        "get_value r rest = Some x"
        by auto
      with Key rest Cons.prems last_eq show ?thesis
        by (auto simp: fresh_for_def)
    next
      case (Index i)
      with Cons.prems have i: "0 \<le> i" by (simp add: simple_seg_def)
      from Cons.prems Index rest obtain k2 where k2: "s2 = Key k2"
        by (cases s2) (auto simp: simple_seg_def)
      have "no_adjacent_index rest" using Cons.prems Index rest k2 by simp
      with Cons.IH [of "JObject []"] Cons.prems rest k2
      obtain r where r: "ensure_container (JObject []) rest (set_last (last rest) x) = Inr r"
        "get_value r rest = Some x"
        by (auto simp: fresh_for_def)
      with Index rest Cons.prems last_eq i show ?thesis
        by (auto simp: fresh_for_def norm_index_nonneg py_index_def nth_pad_new)
    qed (use Cons.prems in \<open>simp_all add: simple_seg_def\<close>)
  qed
qed

lemma dropWhile_self: "xs = [] \<or> \<not> P (hd xs) \<Longrightarrow> dropWhile P xs = xs"
  by (cases xs) auto

lemma dropWhile_hd: "dropWhile P xs = [] \<or> \<not> P (hd (dropWhile P xs))"
  by (metis hd_dropWhile)

lemma rstrip_prefix: "\<exists>zs. xs = rev (dropWhile P (rev xs)) @ zs"
proof -
  have "rev xs = takeWhile P (rev xs) @ dropWhile P (rev xs)" by simp
  then have "xs = rev (dropWhile P (rev xs)) @ rev (takeWhile P (rev xs))"
    by (metis rev_append rev_rev_ident)
  then show ?thesis ..
qed

lemma strip_strip [simp]: "strip (strip s) = strip s"
proof -
  define t where "t = dropWhile is_space s"
  define u where "u = rev (dropWhile is_space (rev t))"
  have t: "t = [] \<or> \<not> is_space (hd t)" unfolding t_def by (rule dropWhile_hd)
  obtain zs where zs: "t = u @ zs" unfolding u_def using rstrip_prefix by blast
  have "u = [] \<or> \<not> is_space (hd u)"
  proof (cases u)
    case Nil then show ?thesis by simp
  next
    case (Cons a u')
    with zs t show ?thesis by auto
  qed
  then have 1: "dropWhile is_space u = u" by (rule dropWhile_self)
  have "rev u = dropWhile is_space (rev t)" by (simp add: u_def)
  then have "rev u = [] \<or> \<not> is_space (hd (rev u))" using dropWhile_hd [of is_space "rev t"] by simp
  then have 2: "dropWhile is_space (rev u) = rev u" by (rule dropWhile_self)
  have "strip s = u" by (simp add: strip_def t_def u_def)
  moreover have "strip u = u" using 1 2 by (simp add: strip_def)
  ultimately show ?thesis by simp
qed

lemma parse_path_segments_strip: "parse_path_segments (strip s) = parse_path_segments s"
  by (simp add: parse_path_segments_def)

lemma strip_Nil [simp]: "strip [] = []"
  by (simp add: strip_def)

lemma parse_path_segments_empty: "strip s = [] \<Longrightarrow> parse_path_segments s = Inr []"
  by (simp add: parse_path_segments_def)

lemma filter_response_single:
  assumes "parse_path_segments spec = Inr segs" and "segs \<noteq> []" and "strip spec \<noteq> ''*''"
  shows "filter_response (JObject d) [spec] = apply_segments (JObject d) segs (JObject [])"
proof -
  from assms have ne: "strip spec \<noteq> []"
    using parse_path_segments_empty [of spec] by auto
  from assms have "parse_path_segments (strip spec) = Inr segs"
    by (simp add: parse_path_segments_strip)
  with ne assms(3) show ?thesis
    by (cases "apply_segments (JObject d) segs (JObject [])")
      (simp_all add: filter_response_def apply_spec_def)
qed

lemma filter_response_star: "strip spec = ''*'' \<Longrightarrow> filter_response data [spec] = Inr data"
  by (simp add: filter_response_def)

lemma get_value_object_hd:
  "get_value (JObject d) p = Some x \<Longrightarrow> p \<noteq> [] \<Longrightarrow> list_all simple_seg p \<Longrightarrow> fresh_for (hd p) (JObject [])"
  by (cases p; cases "hd p") (auto simp: fresh_for_def simple_seg_def)

lemma apply_segments_simple:
  "p \<noteq> [] \<Longrightarrow> list_all simple_seg p \<Longrightarrow> get_value data p = Some x \<Longrightarrow>
   apply_segments data p result = set_in_result result p x"
  by (simp add: apply_segments_def dropWhile_simple)

lemma parse_plain_key:
  assumes "k \<noteq> []" "CHR ''.'' \<notin> set k" "CHR ''['' \<notin> set k" "strip k = k" "\<not> is_int_str k"
  shows "parse_path_segments k = Inr [Key k]"
proof -
  have "split_on CHR ''.'' k = [k]" using assms(2) by (induction k) auto
  moreover have "bracket_match k = None"
  proof -
    from assms(3) have "dropWhile (\<lambda>c. c \<noteq> CHR ''['') k = []" by auto
    then show ?thesis by (simp only: bracket_match_def list.case)
  qed
  ultimately show ?thesis
    using assms by (simp add: parse_path_segments_def parse_part_def)
qed

text \<open>
  Claim C3, as amended. For every object \<open>v\<close> and every spec that parses to a non-empty path of
  Key and non-negative Index segments in which no Index segment directly follows another Index
  segment: if extraction of the path from \<open>v\<close> succeeds with the value \<open>x\<close>, then
  \<open>filter_response\<close> on that one spec returns a projection from which the same path
  extracts \<open>x\<close>.
\<close>

theorem projection_preserves_simple_path:
  assumes "parse_path_segments spec = Inr p"
    and "p \<noteq> []" and "list_all simple_seg p" and "no_adjacent_index p"
    and "get_value (JObject d) p = Some x"
  shows "\<exists>r. filter_response (JObject d) [spec] = Inr r \<and> get_value r p = Some x"
proof (cases "strip spec = ''*''")
  case True
  with assms show ?thesis by (simp add: filter_response_star)
next
  case False
  from assms have "fresh_for (hd p) (JObject [])" by (simp add: get_value_object_hd)
  with assms obtain r where
    "ensure_container (JObject []) p (set_last (last p) x) = Inr r" "get_value r p = Some x"
    using set_get_fresh [of p "JObject []" x] by blast
  with assms False show ?thesis
    by (simp add: filter_response_single apply_segments_simple set_in_result_def)
qed

theorem projection_preserves_simple_path_witness:
  "parse_path_segments ''items[1].id'' = Inr [Key ''items'', Index 1, Key ''id'']
   \<and> list_all simple_seg [Key ''items'', Index 1, Key ''id'']
   \<and> no_adjacent_index [Key ''items'', Index 1, Key ''id'']
   \<and> get_value (JObject [(''items'', JArray [JObject [(''id'', JNumber 1)], JObject [(''ID'', JNumber 2)]])])
        [Key ''items'', Index 1, Key ''id''] = Some (JNumber 2)
   \<and> (\<exists>r. filter_response
              (JObject [(''items'', JArray [JObject [(''id'', JNumber 1)], JObject [(''ID'', JNumber 2)]])])
              [''items[1].id''] = Inr r
          \<and> get_value r [Key ''items'', Index 1, Key ''id''] = Some (JNumber 2))"
proof -
  let ?d = "[(''items'', JArray [JObject [(''id'', JNumber 1)], JObject [(''ID'', JNumber 2)]])]"
  let ?p = "[Key ''items'', Index 1, Key ''id'']"
  have p: "parse_path_segments ''items[1].id'' = Inr ?p" by code_simp
  have ne: "?p \<noteq> []" by simp
  have sp: "list_all simple_seg ?p" by (simp add: simple_seg_def)
  have na: "no_adjacent_index ?p" by simp
  have g: "get_value (JObject ?d) ?p = Some (JNumber 2)" by code_simp
  from projection_preserves_simple_path [OF p ne sp na g] p sp na g
  show ?thesis by blast
qed

text \<open>
  Claim C3 as stated fails in two places. \<open>_ensure_container\<close> appends \<open>{}\<close> for an Index
  segment whatever the next segment is, so for \<open>a[0][1]\<close> the projection of
  \<open>{"a": [[10, 20]]}\<close> is \<open>{"a": [{}]}\<close> and the value \<open>20\<close> is lost. And a spec without
  segments, such as \<open>.\<close>, is skipped by \<open>_apply_spec\<close>: the projection is \<open>{}\<close>, while
  the empty path extracts the whole document.
\<close>

theorem projection_preserves_simple_path_counterexample:
  "parse_path_segments ''a[0][1]'' = Inr [Key ''a'', Index 0, Index 1]
   \<and> get_value (JObject [(''a'', JArray [JArray [JNumber 10, JNumber 20]])]) [Key ''a'', Index 0, Index 1]
        = Some (JNumber 20)
   \<and> filter_response (JObject [(''a'', JArray [JArray [JNumber 10, JNumber 20]])]) [''a[0][1]'']
        = Inr (JObject [(''a'', JArray [JObject []])])
   \<and> get_value (JObject [(''a'', JArray [JObject []])]) [Key ''a'', Index 0, Index 1] = None
   \<and> parse_path_segments ''.'' = Inr []
   \<and> get_value (JObject [(''a'', JNumber 1)]) [] = Some (JObject [(''a'', JNumber 1)])
   \<and> filter_response (JObject [(''a'', JNumber 1)]) [''.''] = Inr (JObject [])
   \<and> get_value (JObject []) [] = Some (JObject [])"
  by code_simp

text \<open>
  Claim C2, as amended. The keys of the projection are spelled as in the spec, not as in the
  source. For every object and every spec whose stripped text is not the wildcard \<open>*\<close>, that
  parses to a non-empty path of Key segments only and whose extraction succeeds with \<open>x\<close>,
  \<open>filter_response\<close> on that one spec returns the nested objects whose keys are the key texts
  of the spec, around \<open>x\<close>. In particular a spec that is one plain key \<open>k\<close> other than \<open>*\<close>,
  matching a source key \<open>actual\<close> in another casing, gives \<open>{k: x}\<close>, and
  \<open>filter_response({"Token": "abc"}, ["token"])\<close> is \<open>{"token": "abc"}\<close>.
\<close>

theorem projection_uses_spec_casing:
  "(parse_path_segments spec = Inr (map Key ks) \<and> ks \<noteq> [] \<and> strip spec \<noteq> ''*''
      \<and> get_value (JObject d) (map Key ks) = Some x
      \<longrightarrow> filter_response (JObject d) [spec] = Inr (nest ks x))
   \<and> (k \<noteq> [] \<and> CHR ''.'' \<notin> set k \<and> CHR ''['' \<notin> set k \<and> strip k = k \<and> \<not> is_int_str k \<and> k \<noteq> ''*''
        \<and> ci_get d k = Some (actual, x)
      \<longrightarrow> filter_response (JObject d) [k] = Inr (JObject [(k, x)]))
   \<and> filter_response (JObject [(''Token'', JString ''abc'')]) [''token'']
        = Inr (JObject [(''token'', JString ''abc'')])"
proof (intro conjI impI)
  assume h: "parse_path_segments spec = Inr (map Key ks) \<and> ks \<noteq> [] \<and> strip spec \<noteq> ''*''
      \<and> get_value (JObject d) (map Key ks) = Some x"
  then have "list_all simple_seg (map Key ks)"
    by (simp add: list_all_iff simple_seg_def)
  with h show "filter_response (JObject d) [spec] = Inr (nest ks x)"
    by (simp add: filter_response_single apply_segments_simple set_in_result_nest)
next
  assume h: "k \<noteq> [] \<and> CHR ''.'' \<notin> set k \<and> CHR ''['' \<notin> set k \<and> strip k = k \<and> \<not> is_int_str k \<and> k \<noteq> ''*''
        \<and> ci_get d k = Some (actual, x)"
  then have p: "parse_path_segments k = Inr [Key k]" by (simp add: parse_plain_key)
  from h have g: "get_value (JObject d) [Key k] = Some x" by simp
  from h p g show "filter_response (JObject d) [k] = Inr (JObject [(k, x)])"
    using set_in_result_nest [of "[k]" x]
    by (simp add: filter_response_single apply_segments_simple simple_seg_def)
next
  show "filter_response (JObject [(''Token'', JString ''abc'')]) [''token'']
        = Inr (JObject [(''token'', JString ''abc'')])"
    by code_simp
qed

theorem projection_uses_spec_casing_witness:
  "parse_path_segments ''User.NAME'' = Inr (map Key [''User'', ''NAME''])
   \<and> strip ''User.NAME'' \<noteq> ''*''
   \<and> get_value (JObject [(''user'', JObject [(''name'', JString ''Bob''), (''age'', JNumber 3)])])
        (map Key [''User'', ''NAME'']) = Some (JString ''Bob'')
   \<and> filter_response (JObject [(''user'', JObject [(''name'', JString ''Bob''), (''age'', JNumber 3)])])
        [''User.NAME'']
      = Inr (JObject [(''User'', JObject [(''NAME'', JString ''Bob'')])])
   \<and> ci_get [(''Token'', JString ''abc'')] ''TOKEN'' = Some (''Token'', JString ''abc'')
   \<and> filter_response (JObject [(''Token'', JString ''abc'')]) [''TOKEN'']
      = Inr (JObject [(''TOKEN'', JString ''abc'')])"
proof -
  let ?d = "[(''user'', JObject [(''name'', JString ''Bob''), (''age'', JNumber 3)])]"
  have p: "parse_path_segments ''User.NAME'' = Inr (map Key [''User'', ''NAME''])"
    by code_simp
  have s: "strip ''User.NAME'' \<noteq> ''*''" by code_simp
  have g: "get_value (JObject ?d) (map Key [''User'', ''NAME'']) = Some (JString ''Bob'')"
    by code_simp
  have c: "ci_get [(''Token'', JString ''abc'')] ''TOKEN'' = Some (''Token'', JString ''abc'')"
    by code_simp
  have k: "strip ''TOKEN'' = ''TOKEN''" "\<not> is_int_str ''TOKEN''"
    by code_simp+
  from projection_uses_spec_casing [of "''User.NAME''" "[''User'', ''NAME'']" ?d "JString ''Bob''"] p s g
  have "filter_response (JObject ?d) [''User.NAME''] = Inr (nest [''User'', ''NAME''] (JString ''Bob''))"
    by simp
  moreover
  from projection_uses_spec_casing [where k = "''TOKEN''" and d = "[(''Token'', JString ''abc'')]"
      and actual = "''Token''" and x = "JString ''abc''"] c k
  have "filter_response (JObject [(''Token'', JString ''abc'')]) [''TOKEN'']
      = Inr (JObject [(''TOKEN'', JString ''abc'')])"
    by simp
  ultimately show ?thesis using p s g c by simp
qed

text \<open>
  Claim C2 as stated names \<open>{"Token": "abc"}\<close> as the result of the spec \<open>token\<close>; the code
  returns \<open>{"token": "abc"}\<close>, which is another object, also for Python's \<open>==\<close>.
\<close>

theorem projection_source_casing_counterexample:
  "filter_response (JObject [(''Token'', JString ''abc'')]) [''token'']
     = Inr (JObject [(''token'', JString ''abc'')])
   \<and> JObject [(''token'', JString ''abc'')] \<noteq> JObject [(''Token'', JString ''abc'')]
   \<and> \<not> py_eq (JObject [(''token'', JString ''abc'')]) (JObject [(''Token'', JString ''abc'')])"
  by code_simp

subsection \<open>Collection points\<close>

lemma nav_container_keys:
  "ks \<noteq> [] \<Longrightarrow>
   nav_container (JObject []) (map Key ks) upd = map_result (nest ks) (upd (JArray []))"
proof (induction ks)
  case Nil
  then show ?case by simp
next
  case (Cons k ks)
  show ?case
  proof (cases "ks = []")
    case True
    then show ?thesis by (cases "upd (JArray [])") simp_all
  next
    case False
    then have step: "nav_container (JObject []) (map Key (k # ks)) upd
        = (case nav_container (JObject []) (map Key ks) upd of
             Inl e \<Rightarrow> Inl e
           | Inr child \<Rightarrow> Inr (JObject [(k, child)]))"
      by (cases "nav_container (JObject []) (map Key ks) upd") simp_all
    from False Cons.IH
    have "nav_container (JObject []) (map Key ks) upd = map_result (nest ks) (upd (JArray []))"
      by simp
    with step show ?thesis
      by (cases "upd (JArray [])") simp_all
  qed
qed

lemma iterate_items_fresh:
  "iterate_items (done @ replicate (length rest) (JObject [])) (enumerate (length done) rest) suffix
     = map_result (\<lambda>es. done @ es) (sequence (map (iterate_entry suffix) rest))"
proof (induction rest arbitrary: "done")
  case Nil
  then show ?case by simp
next
  case (Cons x rest)
  define S where "S = sequence (map (iterate_entry suffix) rest)"
  have step: "iterate_items (done @ e # replicate (length rest) (JObject []))
                (enumerate (Suc (length done)) rest) suffix
              = map_result (\<lambda>es. done @ e # es) S" for e
    using Cons.IH [of "done @ [e]"] by (simp add: S_def)
  have unfold: "iterate_items (done @ replicate (length (x # rest)) (JObject []))
                  (enumerate (length done) (x # rest)) suffix
      = (case iterate_entry suffix x of
           Inl e \<Rightarrow> Inl e
         | Inr entry \<Rightarrow>
             iterate_items (done @ entry # replicate (length rest) (JObject []))
               (enumerate (Suc (length done)) rest) suffix)"
    by (cases "get_value x suffix"; cases "iterate_entry suffix x")
      (auto simp: iterate_entry_def split: sum.splits)
  show ?case
    unfolding unfold
    by (cases "iterate_entry suffix x"; cases S) (simp_all add: step S_def [symmetric])
qed

lemma slice_items_entries:
  "slice_items ys pairs suffix
     = map_result (\<lambda>es. ys @ concat es) (sequence (map (\<lambda>(j, item). slice_entry suffix item) pairs))"
proof (induction pairs arbitrary: ys)
  case Nil
  then show ?case by simp
next
  case (Cons p pairs)
  obtain j item where p: "p = (j, item)" by (cases p)
  define S where "S = sequence (map (\<lambda>(j, item). slice_entry suffix item) pairs)"
  have step: "slice_items (ys @ es) pairs suffix = map_result (\<lambda>ess. ys @ es @ concat ess) S" for es
    using Cons.IH [of "ys @ es"] by (simp add: S_def)
  have unfold: "slice_items ys ((j, item) # pairs) suffix
      = (case slice_entry suffix item of
           Inl e \<Rightarrow> Inl e
         | Inr es \<Rightarrow> slice_items (ys @ es) pairs suffix)"
    by (cases "get_value item suffix"; cases "slice_entry suffix item")
      (auto simp: slice_entry_def split: sum.splits)
  show ?case
    unfolding p unfold
    by (cases "slice_entry suffix item"; cases S) (simp_all add: step S_def [symmetric])
qed

lemma not_is_coll_Key [simp]: "\<not> is_coll (Key k)"
  by (simp add: is_coll_def)

lemma takeWhile_keys:
  "is_coll c \<Longrightarrow> takeWhile (\<lambda>seg. \<not> is_coll seg) (map Key ks @ c # suffix) = map Key ks"
  by (induction ks) auto

lemma dropWhile_keys:
  "is_coll c \<Longrightarrow> dropWhile (\<lambda>seg. \<not> is_coll seg) (map Key ks @ c # suffix) = c # suffix"
  by (induction ks) auto

lemma apply_segments_collection:
  assumes "is_coll c" and "ks \<noteq> []"
    and "get_value data (map Key ks) = Some (JArray arr)"
    and "resolve_list_segment arr c \<noteq> []"
  shows "apply_segments data (map Key ks @ c # suffix) (JObject [])
           = map_result (nest ks) (fill_container arr c suffix (JArray []))"
  using assms
  by (simp add: apply_segments_def takeWhile_keys dropWhile_keys nav_container_keys)

lemma fill_container_iterate:
  "fill_container arr Iterate suffix (JArray [])
     = map_result JArray (sequence (map (iterate_entry suffix) arr))"
proof -
  have "iterate_items ([] @ replicate (length arr) (JObject [])) (enumerate (length ([] :: json list)) arr) suffix
     = map_result (\<lambda>es. [] @ es) (sequence (map (iterate_entry suffix) arr))"
    by (rule iterate_items_fresh)
  then show ?thesis
    by (cases "sequence (map (iterate_entry suffix) arr)")
      (simp_all add: fill_container_def resolve_list_segment_def pad_def)
qed

lemma fill_container_slice:
  "c \<noteq> Iterate \<Longrightarrow>
   fill_container arr c suffix (JArray [])
     = map_result (\<lambda>es. JArray (concat es))
         (sequence (map (\<lambda>(j, item). slice_entry suffix item) (resolve_list_segment arr c)))"
  by (cases "sequence (map (\<lambda>(j, item). slice_entry suffix item) (resolve_list_segment arr c))")
    (simp_all add: fill_container_def slice_items_entries)

lemma parse_star: "parse_path_segments ''*'' = Inr [Key ''*'']"
  by code_simp

lemma collection_spec_not_star:
  assumes "parse_path_segments spec = Inr (map Key ks @ c # suffix)" and "is_coll c"
  shows "strip spec \<noteq> ''*''"
proof
  assume "strip spec = ''*''"
  then have "parse_path_segments spec = Inr [Key ''*'']"
    using parse_path_segments_strip [of spec] parse_star by simp
  with assms show False
    by (cases ks) (auto simp: is_coll_def)
qed

lemma sequence_length: "sequence rs = Inr es \<Longrightarrow> length es = length rs"
proof (induction rs arbitrary: es)
  case Nil
  then show ?case by simp
next
  case (Cons r rs)
  then show ?case
    by (cases r; cases "sequence rs") auto
qed

lemma sequence_nth: "sequence rs = Inr es \<Longrightarrow> i < length rs \<Longrightarrow> rs ! i = Inr (es ! i)"
proof (induction rs arbitrary: es i)
  case Nil
  then show ?case by simp
next
  case (Cons r rs)
  then show ?case
    by (cases r; cases "sequence rs"; cases i) auto
qed

lemma filter_response_iterate:
  assumes "parse_path_segments spec = Inr (map Key ks @ Iterate # suffix)" and "ks \<noteq> []"
    and "get_value (JObject d) (map Key ks) = Some (JArray arr)" and "arr \<noteq> []"
  shows "filter_response (JObject d) [spec]
           = map_result (\<lambda>es. nest ks (JArray es)) (sequence (map (iterate_entry suffix) arr))"
proof -
  have c: "is_coll Iterate" by (simp add: is_coll_def)
  from assms(4) have r: "resolve_list_segment arr Iterate \<noteq> []"
    by (cases arr) (simp_all add: resolve_list_segment_def)
  from assms(1) c have "strip spec \<noteq> ''*''" by (rule collection_spec_not_star)
  with assms(1) have "filter_response (JObject d) [spec]
      = apply_segments (JObject d) (map Key ks @ Iterate # suffix) (JObject [])"
    by (simp add: filter_response_single)
  also have "\<dots> = map_result (nest ks) (fill_container arr Iterate suffix (JArray []))"
    using c assms(2,3) r by (rule apply_segments_collection)
  also have "\<dots> = map_result (\<lambda>es. nest ks (JArray es)) (sequence (map (iterate_entry suffix) arr))"
    by (cases "sequence (map (iterate_entry suffix) arr)") (simp_all add: fill_container_iterate)
  finally show ?thesis .
qed

lemma filter_response_slice:
  assumes "parse_path_segments spec = Inr (map Key ks @ c # suffix)" and "ks \<noteq> []"
    and "is_coll c" and "c \<noteq> Iterate"
    and "get_value (JObject d) (map Key ks) = Some (JArray arr)"
    and "resolve_list_segment arr c \<noteq> []"
  shows "filter_response (JObject d) [spec]
           = map_result (\<lambda>es. nest ks (JArray (concat es)))
               (sequence (map (\<lambda>(j, item). slice_entry suffix item) (resolve_list_segment arr c)))"
proof -
  from assms(1,3) have "strip spec \<noteq> ''*''" by (rule collection_spec_not_star)
  with assms(1) have "filter_response (JObject d) [spec]
      = apply_segments (JObject d) (map Key ks @ c # suffix) (JObject [])"
    by (simp add: filter_response_single)
  also have "\<dots> = map_result (nest ks) (fill_container arr c suffix (JArray []))"
    using assms(3,2,5,6) by (rule apply_segments_collection)
  also have "\<dots> = map_result (\<lambda>es. nest ks (JArray (concat es)))
               (sequence (map (\<lambda>(j, item). slice_entry suffix item) (resolve_list_segment arr c)))"
    using assms(4)
    by (cases "sequence (map (\<lambda>(j, item). slice_entry suffix item) (resolve_list_segment arr c))")
      (simp_all add: fill_container_slice)
  finally show ?thesis .
qed

lemma sequence_slice_raw:
  "sequence (map (\<lambda>(j, item). slice_entry [] item) pairs) = Inr (map (\<lambda>(j, item). [item]) pairs)"
  by (induction pairs) (auto simp: slice_entry_def)

text \<open>
  A suffix that starts with a Key and consists of Key and non-negative Index segments, no Index
  directly after another, is built from an empty object without failure, and the value is
  extracted again from what is built.
\<close>

lemma sequence_map_Inr: "sequence (map (\<lambda>x. Inr (g x)) xs) = Inr (map g xs)"
  by (induction xs) simp_all

lemma entry_built:
  assumes "suffix \<noteq> []" and "is_key (hd suffix)" and "list_all simple_seg suffix"
    and "no_adjacent_index suffix"
  shows "\<exists>r. set_in_result (JObject []) suffix x = Inr r \<and> get_value r suffix = Some x"
proof -
  from assms(1,2) have "fresh_for (hd suffix) (JObject [])"
    by (cases "hd suffix") (simp_all add: fresh_for_def is_key_def)
  with assms obtain r where
    "ensure_container (JObject []) suffix (set_last (last suffix) x) = Inr r" "get_value r suffix = Some x"
    using set_get_fresh [of suffix "JObject []" x] by blast
  with assms(1) show ?thesis by (simp add: set_in_result_def)
qed

lemma entry_function:
  assumes "suffix \<noteq> []" and "is_key (hd suffix)" and "list_all simple_seg suffix"
    and "no_adjacent_index suffix"
  shows "\<exists>f. (\<forall>x. set_in_result (JObject []) suffix x = Inr (f x))
             \<and> (\<forall>x. get_value (f x) suffix = Some x)
             \<and> (\<forall>ss x. suffix = map Key ss \<longrightarrow> f x = nest ss x)"
proof -
  from entry_built [OF assms]
  have "\<forall>x. \<exists>r. set_in_result (JObject []) suffix x = Inr r \<and> get_value r suffix = Some x"
    by blast
  then obtain f where f: "\<And>x. set_in_result (JObject []) suffix x = Inr (f x)"
    "\<And>x. get_value (f x) suffix = Some x"
    by metis
  have "f x = nest ss x" if "suffix = map Key ss" for ss x
  proof -
    from that assms(1) have "ss \<noteq> []" by auto
    then have "set_in_result (JObject []) (map Key ss) x = Inr (nest ss x)"
      by (rule set_in_result_nest)
    with f(1) [of x] that show ?thesis by simp
  qed
  with f show ?thesis by blast
qed

lemma concat_found:
  "concat (map (\<lambda>(j, item). case h item of Some x \<Rightarrow> [f x] | None \<Rightarrow> []) pairs)
     = map f (List.map_filter (\<lambda>(j, item). h item) pairs)"
  by (induction pairs) (auto simp: List.map_filter_simps split: option.splits)

text \<open>
  Claim C4, as amended. For every object in which a path of keys (such as \<open>data\<close>) leads to a
  non-empty array, and every spec that is this path of keys, then \<open>[]\<close>, then a suffix that is
  empty or starts with a Key and consists of Key and non-negative Index segments with no Index
  directly after another: the projection is the nested objects of the spec's keys around an
  array of the source array's length. Its entry at each source index is the element itself when
  there is no suffix; when the suffix extracts \<open>x\<close> from the element, an entry from which the
  suffix extracts \<open>x\<close> again, which for a suffix of keys is the nested objects of these keys
  around \<open>x\<close>; and the empty object when the suffix finds nothing. In particular
  \<open>filter_response({"data": [{"id": 1, "name": "A"}, {"id": 2, "name": "B"}]}, ["data[].id"])\<close>
  is \<open>{"data": [{"id": 1}, {"id": 2}]}\<close>.
\<close>

theorem iterate_projection_aligned:
  assumes "parse_path_segments spec = Inr (map Key ks @ Iterate # suffix)" and "ks \<noteq> []"
    and "get_value (JObject d) (map Key ks) = Some (JArray arr)" and "arr \<noteq> []"
    and "suffix = [] \<or> is_key (hd suffix) \<and> list_all simple_seg suffix \<and> no_adjacent_index suffix"
  shows "(\<exists>es. filter_response (JObject d) [spec] = Inr (nest ks (JArray es))
           \<and> length es = length arr
           \<and> (\<forall>i < length arr.
                 (suffix = [] \<longrightarrow> es ! i = arr ! i)
                 \<and> (suffix \<noteq> [] \<longrightarrow>
                      (case get_value (arr ! i) suffix of
                         Some x \<Rightarrow>
                           get_value (es ! i) suffix = Some x
                           \<and> (\<forall>ss. suffix = map Key ss \<longrightarrow> es ! i = nest ss x)
                       | None \<Rightarrow> es ! i = JObject []))))
         \<and> filter_response
              (JObject [(''data'', JArray [JObject [(''id'', JNumber 1), (''name'', JString ''A'')],
                                           JObject [(''id'', JNumber 2), (''name'', JString ''B'')]])])
              [''data[].id'']
            = Inr (JObject [(''data'', JArray [JObject [(''id'', JNumber 1)], JObject [(''id'', JNumber 2)]])])"
proof (rule conjI)
  have run: "filter_response (JObject d) [spec]
      = map_result (\<lambda>es. nest ks (JArray es)) (sequence (map (iterate_entry suffix) arr))"
    using assms(1-4) by (rule filter_response_iterate)
  show "\<exists>es. filter_response (JObject d) [spec] = Inr (nest ks (JArray es))
           \<and> length es = length arr
           \<and> (\<forall>i < length arr.
                 (suffix = [] \<longrightarrow> es ! i = arr ! i)
                 \<and> (suffix \<noteq> [] \<longrightarrow>
                      (case get_value (arr ! i) suffix of
                         Some x \<Rightarrow>
                           get_value (es ! i) suffix = Some x
                           \<and> (\<forall>ss. suffix = map Key ss \<longrightarrow> es ! i = nest ss x)
                       | None \<Rightarrow> es ! i = JObject [])))"
  proof (cases "suffix = []")
    case True
    then have "iterate_entry suffix = (\<lambda>item. Inr item)"
      by (simp add: iterate_entry_def fun_eq_iff)
    then have "sequence (map (iterate_entry suffix) arr) = Inr (map (\<lambda>item. item) arr)"
      by (simp only: sequence_map_Inr)
    with run True show ?thesis by (intro exI [of _ arr]) simp
  next
    case False
    with assms(5) have ok: "is_key (hd suffix)" "list_all simple_seg suffix" "no_adjacent_index suffix"
      by simp_all
    from False ok obtain f where f: "\<And>x. set_in_result (JObject []) suffix x = Inr (f x)"
      "\<And>x. get_value (f x) suffix = Some x"
      "\<And>ss x. suffix = map Key ss \<Longrightarrow> f x = nest ss x"
      using entry_function [of suffix] by blast
    define g where "g item = (case get_value item suffix of Some x \<Rightarrow> f x | None \<Rightarrow> JObject [])" for item
    have "iterate_entry suffix = (\<lambda>item. Inr (g item))"
      using False by (auto simp: iterate_entry_def g_def f(1) fun_eq_iff split: option.splits)
    then have "sequence (map (iterate_entry suffix) arr) = Inr (map g arr)"
      by (simp only: sequence_map_Inr)
    with run have "filter_response (JObject d) [spec] = Inr (nest ks (JArray (map g arr)))"
      by simp
    moreover have "case get_value (arr ! i) suffix of
                     Some x \<Rightarrow> get_value (map g arr ! i) suffix = Some x
                       \<and> (\<forall>ss. suffix = map Key ss \<longrightarrow> map g arr ! i = nest ss x)
                   | None \<Rightarrow> map g arr ! i = JObject []" if "i < length arr" for i
    proof (cases "get_value (arr ! i) suffix")
      case None
      with that show ?thesis by (simp add: g_def)
    next
      case (Some x)
      with that have "map g arr ! i = f x" by (simp add: g_def)
      with Some f(2) [of x] f(3) [of _ x] show ?thesis by simp
    qed
    ultimately show ?thesis using False by (intro exI [of _ "map g arr"]) simp
  qed
next
  show "filter_response
              (JObject [(''data'', JArray [JObject [(''id'', JNumber 1), (''name'', JString ''A'')],
                                           JObject [(''id'', JNumber 2), (''name'', JString ''B'')]])])
              [''data[].id'']
            = Inr (JObject [(''data'', JArray [JObject [(''id'', JNumber 1)], JObject [(''id'', JNumber 2)]])])"
    by code_simp
qed

theorem iterate_projection_aligned_witness:
  "parse_path_segments ''rows[].Tag'' = Inr (map Key [''rows''] @ Iterate # [Key ''Tag''])
   \<and> get_value (JObject [(''rows'', JArray [JObject [(''tag'', JString ''x'')], JObject [(''n'', JNumber 7)]])])
        (map Key [''rows''])
      = Some (JArray [JObject [(''tag'', JString ''x'')], JObject [(''n'', JNumber 7)]])
   \<and> is_key (hd [Key ''Tag'']) \<and> list_all simple_seg [Key ''Tag''] \<and> no_adjacent_index [Key ''Tag'']
   \<and> (\<exists>es. filter_response
               (JObject [(''rows'', JArray [JObject [(''tag'', JString ''x'')], JObject [(''n'', JNumber 7)]])])
               [''rows[].Tag'']
             = Inr (JObject [(''rows'', JArray es)])
           \<and> length es = 2
           \<and> es ! 0 = JObject [(''Tag'', JString ''x'')]
           \<and> es ! 1 = JObject [])"
proof -
  let ?arr = "[JObject [(''tag'', JString ''x'')], JObject [(''n'', JNumber 7)]]"
  let ?d = "[(''rows'', JArray ?arr)]"
  have p: "parse_path_segments ''rows[].Tag'' = Inr (map Key [''rows''] @ Iterate # [Key ''Tag''])"
    by code_simp
  have g: "get_value (JObject ?d) (map Key [''rows'']) = Some (JArray ?arr)"
    by code_simp
  have ok: "is_key (hd [Key ''Tag''])" "list_all simple_seg [Key ''Tag'']" "no_adjacent_index [Key ''Tag'']"
    by (simp_all add: is_key_def simple_seg_def)
  have g0: "get_value (?arr ! 0) [Key ''Tag''] = Some (JString ''x'')" by code_simp
  have g1: "get_value (?arr ! 1) [Key ''Tag''] = None" by code_simp
  from iterate_projection_aligned [OF p _ g] ok
  obtain es where es: "filter_response (JObject ?d) [''rows[].Tag''] = Inr (nest [''rows''] (JArray es))"
    "length es = length ?arr"
    and each: "\<forall>i < length ?arr.
           (case get_value (?arr ! i) [Key ''Tag''] of
              Some x \<Rightarrow> get_value (es ! i) [Key ''Tag''] = Some x
                \<and> (\<forall>ss. [Key ''Tag''] = map Key ss \<longrightarrow> es ! i = nest ss x)
            | None \<Rightarrow> es ! i = JObject [])"
    by auto
  have l0: "0 < length ?arr" and l1: "1 < length ?arr" by simp_all
  have "\<forall>ss. [Key ''Tag''] = map Key ss \<longrightarrow> es ! 0 = nest ss (JString ''x'')"
    using each [rule_format, OF l0] unfolding g0 by simp
  then have "[Key ''Tag''] = map Key [''Tag''] \<longrightarrow> es ! 0 = nest [''Tag''] (JString ''x'')"
    by (rule spec)
  then have e0: "es ! 0 = nest [''Tag''] (JString ''x'')" by simp
  have e1: "es ! 1 = JObject []"
    using each [rule_format, OF l1] unfolding g1 by simp
  from es e0 e1 have "filter_response (JObject ?d) [''rows[].Tag''] = Inr (JObject [(''rows'', JArray es)])
           \<and> length es = 2 \<and> es ! 0 = JObject [(''Tag'', JString ''x'')] \<and> es ! 1 = JObject []"
    by simp
  then have "\<exists>es. filter_response (JObject ?d) [''rows[].Tag''] = Inr (JObject [(''rows'', JArray es)])
           \<and> length es = 2 \<and> es ! 0 = JObject [(''Tag'', JString ''x'')] \<and> es ! 1 = JObject []"
    by (rule exI)
  with p g ok show ?thesis by blast
qed

text \<open>
  Claim C4 as stated holds for every array. For the empty array \<open>_apply_spec\<close> returns before
  it creates a container (\<open>if not pairs: return\<close>): the projection is \<open>{}\<close>, without an output
  array.
\<close>

theorem iterate_projection_counterexample:
  "get_value (JObject [(''data'', JArray [])]) [Key ''data''] = Some (JArray [])
   \<and> filter_response (JObject [(''data'', JArray [])]) [''data[]''] = Inr (JObject [])
   \<and> JObject [] \<noteq> JObject [(''data'', JArray [])]"
  by code_simp

text \<open>
  Claim C5, as amended. For every object in which a path of keys leads to an array, and every
  spec that is this path of keys, then a Slice or a negative Index that selects at least one
  pair, then a suffix that is empty or starts with a Key and consists of Key and non-negative
  Index segments with no Index directly after another: the projection is the nested objects of
  the spec's keys around a compact array. Without a suffix the array is the selected elements in
  order. With a suffix it has one entry for each selected element in which the suffix is found,
  in order, and none for the others; the suffix extracts from each entry the value it extracted
  from the element, and for a suffix of keys the entry is the nested objects of these keys
  around that value. There is no padding. The two examples of the specification are included.
\<close>

theorem slice_projection_compact:
  assumes "parse_path_segments spec = Inr (map Key ks @ c # suffix)" and "ks \<noteq> []"
    and "is_coll c" and "c \<noteq> Iterate"
    and "get_value (JObject d) (map Key ks) = Some (JArray arr)"
    and "resolve_list_segment arr c \<noteq> []"
    and "suffix = [] \<or> is_key (hd suffix) \<and> list_all simple_seg suffix \<and> no_adjacent_index suffix"
  shows "(\<exists>es. filter_response (JObject d) [spec] = Inr (nest ks (JArray es))
           \<and> (suffix = [] \<longrightarrow> es = map snd (resolve_list_segment arr c))
           \<and> (suffix \<noteq> [] \<longrightarrow>
                list_all2 (\<lambda>e x. get_value e suffix = Some x
                                  \<and> (\<forall>ss. suffix = map Key ss \<longrightarrow> e = nest ss x))
                  es (List.map_filter (\<lambda>(j, item). get_value item suffix) (resolve_list_segment arr c))))
         \<and> filter_response
              (JObject [(''items'', JArray [JObject [(''id'', JNumber 1)], JObject [(''id'', JNumber 2)],
                                            JObject [(''id'', JNumber 3)]])])
              [''items[-1].id'']
            = Inr (JObject [(''items'', JArray [JObject [(''id'', JNumber 3)]])])
         \<and> filter_response
              (JObject [(''items'', JArray [JObject [(''id'', JNumber 1)], JObject [(''id'', JNumber 2)],
                                            JObject [(''id'', JNumber 3)]])])
              [''items[1:3]'']
            = Inr (JObject [(''items'', JArray [JObject [(''id'', JNumber 2)], JObject [(''id'', JNumber 3)]])])"
proof (intro conjI)
  let ?pairs = "resolve_list_segment arr c"
  have run: "filter_response (JObject d) [spec]
      = map_result (\<lambda>es. nest ks (JArray (concat es)))
          (sequence (map (\<lambda>(j, item). slice_entry suffix item) ?pairs))"
    using assms(1-6) by (rule filter_response_slice)
  show "\<exists>es. filter_response (JObject d) [spec] = Inr (nest ks (JArray es))
           \<and> (suffix = [] \<longrightarrow> es = map snd ?pairs)
           \<and> (suffix \<noteq> [] \<longrightarrow>
                list_all2 (\<lambda>e x. get_value e suffix = Some x
                                  \<and> (\<forall>ss. suffix = map Key ss \<longrightarrow> e = nest ss x))
                  es (List.map_filter (\<lambda>(j, item). get_value item suffix) ?pairs))"
  proof (cases "suffix = []")
    case True
    have "concat (map (\<lambda>(j, item). [item]) pairs) = map snd pairs"
      for pairs :: "(nat \<times> json) list"
      by (induction pairs) auto
    with run True have "filter_response (JObject d) [spec] = Inr (nest ks (JArray (map snd ?pairs)))"
      by (simp add: sequence_slice_raw)
    with True show ?thesis by simp
  next
    case False
    with assms(7) have ok: "is_key (hd suffix)" "list_all simple_seg suffix" "no_adjacent_index suffix"
      by simp_all
    from False ok obtain f where f: "\<And>x. set_in_result (JObject []) suffix x = Inr (f x)"
      "\<And>x. get_value (f x) suffix = Some x"
      "\<And>ss x. suffix = map Key ss \<Longrightarrow> f x = nest ss x"
      using entry_function [of suffix] by blast
    define g where "g = (\<lambda>(j :: nat, item). case get_value item suffix of Some x \<Rightarrow> [f x] | None \<Rightarrow> [])"
    have "(\<lambda>(j :: nat, item). slice_entry suffix item) = (\<lambda>p. Inr (g p))"
      using False by (auto simp: slice_entry_def g_def f(1) fun_eq_iff split: option.splits)
    then have "sequence (map (\<lambda>(j, item). slice_entry suffix item) ?pairs) = Inr (map g ?pairs)"
      by (simp only: sequence_map_Inr)
    with run have "filter_response (JObject d) [spec] = Inr (nest ks (JArray (concat (map g ?pairs))))"
      by simp
    moreover have "concat (map g ?pairs)
        = map f (List.map_filter (\<lambda>(j, item). get_value item suffix) ?pairs)"
      unfolding g_def by (rule concat_found)
    moreover have "list_all2 (\<lambda>e x. get_value e suffix = Some x
                                  \<and> (\<forall>ss. suffix = map Key ss \<longrightarrow> e = nest ss x))
                     (map f xs) xs" for xs
      by (simp add: list_all2_map1 list.rel_refl f(2) f(3))
    ultimately show ?thesis using False by auto
  qed
next
  show "filter_response
              (JObject [(''items'', JArray [JObject [(''id'', JNumber 1)], JObject [(''id'', JNumber 2)],
                                            JObject [(''id'', JNumber 3)]])])
              [''items[-1].id'']
            = Inr (JObject [(''items'', JArray [JObject [(''id'', JNumber 3)]])])"
    by code_simp
next
  show "filter_response
              (JObject [(''items'', JArray [JObject [(''id'', JNumber 1)], JObject [(''id'', JNumber 2)],
                                            JObject [(''id'', JNumber 3)]])])
              [''items[1:3]'']
            = Inr (JObject [(''items'', JArray [JObject [(''id'', JNumber 2)], JObject [(''id'', JNumber 3)]])])"
    by code_simp
qed

theorem slice_projection_compact_witness:
  "parse_path_segments ''log.lines[-2:].msg'' = Inr (map Key [''log'', ''lines''] @ Slice (Some (- 2)) None # [Key ''msg''])
   \<and> is_coll (Slice (Some (- 2)) None) \<and> Slice (Some (- 2)) None \<noteq> Iterate
   \<and> get_value
        (JObject [(''log'', JObject [(''lines'', JArray [JObject [(''msg'', JString ''a'')],
              JObject [(''msg'', JString ''b'')], JObject [(''msg'', JString ''c'')]])])])
        (map Key [''log'', ''lines''])
      = Some (JArray [JObject [(''msg'', JString ''a'')], JObject [(''msg'', JString ''b'')],
                      JObject [(''msg'', JString ''c'')]])
   \<and> resolve_list_segment [JObject [(''msg'', JString ''a'')], JObject [(''msg'', JString ''b'')],
                             JObject [(''msg'', JString ''c'')]] (Slice (Some (- 2)) None)
      = [(1, JObject [(''msg'', JString ''b'')]), (2, JObject [(''msg'', JString ''c'')])]
   \<and> is_key (hd [Key ''msg'']) \<and> list_all simple_seg [Key ''msg''] \<and> no_adjacent_index [Key ''msg'']
   \<and> filter_response
        (JObject [(''log'', JObject [(''lines'', JArray [JObject [(''msg'', JString ''a'')],
              JObject [(''msg'', JString ''b'')], JObject [(''msg'', JString ''c'')]])])])
        [''log.lines[-2:].msg'']
      = Inr (JObject [(''log'', JObject [(''lines'',
               JArray [JObject [(''msg'', JString ''b'')], JObject [(''msg'', JString ''c'')]])])])"
proof -
  let ?arr = "[JObject [(''msg'', JString ''a'')], JObject [(''msg'', JString ''b'')],
               JObject [(''msg'', JString ''c'')]]"
  let ?c = "Slice (Some (- 2)) None"
  let ?d = "[(''log'', JObject [(''lines'', JArray ?arr)])]"
  let ?P = "\<lambda>e x. get_value e [Key ''msg''] = Some x \<and> (\<forall>ss. [Key ''msg''] = map Key ss \<longrightarrow> e = nest ss x)"
  have p: "parse_path_segments ''log.lines[-2:].msg'' = Inr (map Key [''log'', ''lines''] @ ?c # [Key ''msg''])"
    by code_simp
  have ic: "is_coll ?c" and ni: "?c \<noteq> Iterate" by (simp_all add: is_coll_def)
  have g: "get_value (JObject ?d) (map Key [''log'', ''lines'']) = Some (JArray ?arr)"
    by code_simp
  have r: "resolve_list_segment ?arr ?c
      = [(1, JObject [(''msg'', JString ''b'')]), (2, JObject [(''msg'', JString ''c'')])]"
    by code_simp
  then have rn: "resolve_list_segment ?arr ?c \<noteq> []" by simp
  have ok: "is_key (hd [Key ''msg''])" "list_all simple_seg [Key ''msg'']" "no_adjacent_index [Key ''msg'']"
    by (simp_all add: is_key_def simple_seg_def)
  have found: "List.map_filter (\<lambda>(j, item). get_value item [Key ''msg'']) (resolve_list_segment ?arr ?c)
      = [JString ''b'', JString ''c'']"
    unfolding r by code_simp
  from slice_projection_compact [OF p _ ic ni g rn] ok
  obtain es where es: "filter_response (JObject ?d) [''log.lines[-2:].msg'']
        = Inr (nest [''log'', ''lines''] (JArray es))"
    and all: "list_all2 ?P es
        (List.map_filter (\<lambda>(j, item). get_value item [Key ''msg'']) (resolve_list_segment ?arr ?c))"
    by auto
  from all have "list_all2 ?P es [JString ''b'', JString ''c'']"
    unfolding found .
  then obtain e1 e2 where e: "es = [e1, e2]"
    and a1: "\<forall>ss. [Key ''msg''] = map Key ss \<longrightarrow> e1 = nest ss (JString ''b'')"
    and a2: "\<forall>ss. [Key ''msg''] = map Key ss \<longrightarrow> e2 = nest ss (JString ''c'')"
    by (auto simp only: list_all2_Cons2 list_all2_Nil2)
  from a1 have "[Key ''msg''] = map Key [''msg''] \<longrightarrow> e1 = nest [''msg''] (JString ''b'')"
    by (rule spec)
  moreover from a2 have "[Key ''msg''] = map Key [''msg''] \<longrightarrow> e2 = nest [''msg''] (JString ''c'')"
    by (rule spec)
  ultimately have "e1 = JObject [(''msg'', JString ''b'')]" "e2 = JObject [(''msg'', JString ''c'')]"
    by simp_all
  with es e have "filter_response (JObject ?d) [''log.lines[-2:].msg'']
      = Inr (JObject [(''log'', JObject [(''lines'',
               JArray [JObject [(''msg'', JString ''b'')], JObject [(''msg'', JString ''c'')]])])])"
    by simp
  with p ic ni g r ok show ?thesis by blast
qed

text \<open>
  Claim C5 as stated has one entry per selected pair, the raw element standing in where the
  suffix is not found. The code appends only under \<open>if found\<close>: \<open>items[0:2].id\<close> selects both
  elements of \<open>[{"id": 1}, {"x": 2}]\<close> and the output array is \<open>[{"id": 1}]\<close>.
\<close>

theorem slice_projection_counterexample:
  "resolve_list_segment [JObject [(''id'', JNumber 1)], JObject [(''x'', JNumber 2)]] (Slice (Some 0) (Some 2))
     = [(0, JObject [(''id'', JNumber 1)]), (1, JObject [(''x'', JNumber 2)])]
   \<and> get_value (JObject [(''x'', JNumber 2)]) [Key ''id''] = None
   \<and> filter_response
        (JObject [(''items'', JArray [JObject [(''id'', JNumber 1)], JObject [(''x'', JNumber 2)]])])
        [''items[0:2].id'']
      = Inr (JObject [(''items'', JArray [JObject [(''id'', JNumber 1)]])])"
  by code_simp

subsection \<open>Repeated and reordered specs\<close>

lemma dict_set_idem: "dict_set (dict_set d k v) k v = dict_set d k v"
  by (induction d) auto

lemma find_dict_set:
  "find (\<lambda>(k, v). Q k) d = Some (a, child) \<Longrightarrow>
   find (\<lambda>(k, v). Q k) (dict_set d a c) = Some (a, c)"
proof (induction d)
  case Nil
  then show ?case by simp
next
  case (Cons kv d)
  obtain k v where kv: "kv = (k, v)" by (cases kv)
  show ?case
  proof (cases "Q k")
    case True
    with Cons.prems kv show ?thesis by simp
  next
    case False
    with Cons.prems kv have f: "find (\<lambda>(k, v). Q k) d = Some (a, child)" by simp
    then have "Q a" by (auto simp: find_Some_iff)
    with False have "k \<noteq> a" by auto
    with False kv Cons.IH [OF f] show ?thesis by simp
  qed
qed

lemma ci_get_dict_set_new: "ci_get (dict_set d s c) s = Some (s, c)"
  by (simp add: ci_get_def map_of_dict_set)

lemma ci_get_dict_set_found:
  assumes "ci_get d s = Some (a, child)"
  shows "ci_get (dict_set d a c) s = Some (a, c)"
proof (cases "map_of d s")
  case (Some w)
  with assms have "a = s" by (simp add: ci_get_def)
  then show ?thesis by (simp add: ci_get_dict_set_new)
next
  case None
  with assms have f: "find (\<lambda>(k, v). lower k = lower s) d = Some (a, child)"
    by (simp add: ci_get_def)
  then have "(a, child) \<in> set d" by (metis find_Some_iff nth_mem)
  with None have "a \<noteq> s"
    by (metis map_of_eq_None_iff fst_conv image_eqI)
  with None have "map_of (dict_set d a c) s = None" by (simp add: map_of_dict_set)
  with find_dict_set [OF f] show ?thesis by (simp add: ci_get_def)
qed

lemma set_last_shape: "set_last l x t = Inr t' \<Longrightarrow> shape t' = shape t"
  by (cases l; cases t)
    (auto simp: set_last_def shape_def Let_def split: option.splits)

lemma ensure_container_shape:
  "ensure_container t p (set_last l x) = Inr t' \<Longrightarrow> shape t' = shape t"
proof (induction p arbitrary: t t')
  case Nil
  then show ?case by (simp add: set_last_shape)
next
  case (Cons seg rest)
  show ?case
  proof (cases rest)
    case Nil
    with Cons.prems show ?thesis by (simp add: set_last_shape)
  next
    case (Cons s2 rest')
    with Cons.prems Cons.IH show ?thesis
      by (cases seg; cases t)
        (auto simp: shape_def Let_def split: option.splits sum.splits)
  qed
qed

lemma pad_full: "n \<le> length xs \<Longrightarrow> pad xs n v = xs"
  by (simp add: pad_def)

lemma set_last_idem:
  "simple_seg l \<Longrightarrow> set_last l x t = Inr t' \<Longrightarrow> set_last l x t' = Inr t'"
  by (cases l; cases t)
    (auto simp: set_last_def simple_seg_def Let_def norm_index_nonneg dict_set_idem pad_full
          split: option.splits if_splits)

lemma ensure_container_idem:
  "list_all simple_seg p \<Longrightarrow> p \<noteq> [] \<Longrightarrow>
   ensure_container t p (set_last (last p) x) = Inr t' \<Longrightarrow>
   ensure_container t' p (set_last (last p) x) = Inr t'"
proof (induction p arbitrary: t t')
  case Nil
  then show ?case by simp
next
  case (Cons seg rest)
  show ?case
  proof (cases rest)
    case Nil
    with Cons.prems have "simple_seg seg" and "set_last seg x t = Inr t'" by simp_all
    then have "set_last seg x t' = Inr t'" by (rule set_last_idem)
    with Nil show ?thesis by simp
  next
    case (Cons s2 rest')
    define upd where "upd = set_last (last rest) x"
    have last_eq: "set_last (last (seg # rest)) x = upd" using Cons by (simp add: upd_def)
    have ne: "rest \<noteq> []" using Cons by simp
    have simple: "list_all simple_seg rest" using Cons.prems by simp
    have IH: "ensure_container c rest upd = Inr c' \<Longrightarrow> ensure_container c' rest upd = Inr c'" for c c'
      unfolding upd_def by (rule Cons.IH [OF simple ne])
    have sh: "ensure_container c rest upd = Inr c' \<Longrightarrow> shape c' = shape c" for c c'
      unfolding upd_def by (rule ensure_container_shape)
    from Cons.prems have "ensure_container t (seg # rest) upd = Inr t'"
      by (simp only: last_eq)
    then have run: "ensure_container t (seg # s2 # rest') upd = Inr t'"
      unfolding Cons .
    have goal: "ensure_container t' (seg # s2 # rest') upd = Inr t'"
    proof (cases seg)
      case (Key s)
      show ?thesis
      proof (cases t)
        case (JObject d)
        show ?thesis
        proof (cases "ci_get d s")
          case None
          let ?c0 = "if is_key s2 then JObject [] else JArray []"
          from run Key JObject None Cons obtain c where
            c: "ensure_container ?c0 rest upd = Inr c" "t' = JObject (dict_set d s c)"
            by (auto split: sum.splits)
          from IH [OF c(1)] c(2) Key Cons show ?thesis
            by (simp add: ci_get_dict_set_new dict_set_idem)
        next
          case (Some ac)
          obtain a child where ac: "ac = (a, child)" by (cases ac)
          from run Key JObject Some ac Cons obtain c where
            c: "ensure_container child rest upd = Inr c" "t' = JObject (dict_set d a c)"
            by (auto split: sum.splits)
          from Some ac have "ci_get (dict_set d a c) s = Some (a, c)"
            by (simp add: ci_get_dict_set_found)
          with IH [OF c(1)] c(2) Key Cons show ?thesis
            by (simp add: dict_set_idem)
        qed
      next
        case JNull
        with run Key Cons have r: "ensure_container t rest upd = Inr t'" by simp
        from sh [OF r] JNull have "shape t' = 0" by (simp add: shape_def)
        then have "ensure_container t' (seg # s2 # rest') upd = ensure_container t' (s2 # rest') upd"
          using Key by (cases t') (simp_all add: shape_def)
        with IH [OF r] Cons show ?thesis by simp
      next
        case (JBool b)
        with run Key Cons have r: "ensure_container t rest upd = Inr t'" by simp
        from sh [OF r] JBool have "shape t' = 0" by (simp add: shape_def)
        then have "ensure_container t' (seg # s2 # rest') upd = ensure_container t' (s2 # rest') upd"
          using Key by (cases t') (simp_all add: shape_def)
        with IH [OF r] Cons show ?thesis by simp
      next
        case (JNumber n)
        with run Key Cons have r: "ensure_container t rest upd = Inr t'" by simp
        from sh [OF r] JNumber have "shape t' = 0" by (simp add: shape_def)
        then have "ensure_container t' (seg # s2 # rest') upd = ensure_container t' (s2 # rest') upd"
          using Key by (cases t') (simp_all add: shape_def)
        with IH [OF r] Cons show ?thesis by simp
      next
        case (JString str)
        with run Key Cons have r: "ensure_container t rest upd = Inr t'" by simp
        from sh [OF r] JString have "shape t' = 0" by (simp add: shape_def)
        then have "ensure_container t' (seg # s2 # rest') upd = ensure_container t' (s2 # rest') upd"
          using Key by (cases t') (simp_all add: shape_def)
        with IH [OF r] Cons show ?thesis by simp
      next
        case (JArray xs)
        with run Key Cons have r: "ensure_container t rest upd = Inr t'" by simp
        from sh [OF r] JArray have "shape t' = 1" by (simp add: shape_def)
        then have "ensure_container t' (seg # s2 # rest') upd = ensure_container t' (s2 # rest') upd"
          using Key by (cases t') (simp_all add: shape_def)
        with IH [OF r] Cons show ?thesis by simp
      qed
    next
      case (Index i)
      with Cons.prems have i: "0 \<le> i" by (simp add: simple_seg_def)
      show ?thesis
      proof (cases "\<exists>xs. t = JArray xs")
        case True
        then obtain xs where t: "t = JArray xs" by blast
        let ?xs = "pad xs (nat i + 1) (JObject [])"
        have len: "nat i < length ?xs" by simp
        from run Index t i Cons obtain c where
          c: "ensure_container (?xs ! nat i) rest upd = Inr c" "t' = JArray (?xs[nat i := c])"
          by (auto simp: norm_index_nonneg Let_def split: sum.splits if_splits)
        have "pad (?xs[nat i := c]) (nat i + 1) (JObject []) = ?xs[nat i := c]"
          using len by (simp add: pad_full)
        with IH [OF c(1)] c(2) Index i Cons len show ?thesis
          by (simp add: norm_index_nonneg Let_def)
      next
        case False
        with run Index Cons have r: "ensure_container t rest upd = Inr t'"
          by (cases t) simp_all
        from sh [OF r] False have "shape t' \<noteq> 1" by (cases t) (simp_all add: shape_def)
        then have "ensure_container t' (seg # s2 # rest') upd = ensure_container t' (s2 # rest') upd"
          using Index by (cases t') (simp_all add: shape_def)
        with IH [OF r] Cons show ?thesis by simp
      qed
    qed (use Cons.prems in \<open>simp_all add: simple_seg_def\<close>)
    then have "ensure_container t' (seg # rest) upd = Inr t'"
      unfolding Cons .
    then show ?thesis by (simp only: last_eq)
  qed
qed

lemma set_in_result_idem:
  "list_all simple_seg p \<Longrightarrow> set_in_result t p x = Inr t' \<Longrightarrow> set_in_result t' p x = Inr t'"
proof (cases "p = []")
  case True
  then show ?thesis by (simp add: set_in_result_def)
next
  case False
  assume "list_all simple_seg p" and "set_in_result t p x = Inr t'"
  with False have "ensure_container t' p (set_last (last p) x) = Inr t'"
    using ensure_container_idem [of p t x t'] by (simp add: set_in_result_def)
  with False show ?thesis by (simp add: set_in_result_def)
qed

lemma apply_segments_idem:
  assumes "list_all simple_seg p" and "apply_segments data p result = Inr r"
  shows "apply_segments data p r = Inr r"
proof (cases "p = []")
  case True
  with assms show ?thesis by (simp add: apply_segments_def)
next
  case False
  show ?thesis
  proof (cases "get_value data p")
    case None
    with assms False show ?thesis by (simp add: apply_segments_def dropWhile_simple)
  next
    case (Some x)
    with assms False have "set_in_result result p x = Inr r"
      by (simp add: apply_segments_simple)
    with assms(1) have "set_in_result r p x = Inr r" by (rule set_in_result_idem)
    with assms False Some show ?thesis
      by (simp add: apply_segments_simple)
  qed
qed

lemma nav_container_nest:
  "ks \<noteq> [] \<Longrightarrow>
   nav_container (nest ks c) (map Key ks) upd = map_result (nest ks) (upd c)"
proof (induction ks)
  case Nil
  then show ?case by simp
next
  case (Cons k ks)
  show ?case
  proof (cases "ks = []")
    case True
    then show ?thesis by (cases "upd c") simp_all
  next
    case False
    then have "nav_container (nest (k # ks) c) (map Key (k # ks)) upd
        = (case nav_container (nest ks c) (map Key ks) upd of
             Inl e \<Rightarrow> Inl e
           | Inr child \<Rightarrow> Inr (JObject [(k, child)]))"
      by (cases "nav_container (nest ks c) (map Key ks) upd") simp_all
    moreover from False Cons.IH
    have "nav_container (nest ks c) (map Key ks) upd = map_result (nest ks) (upd c)"
      by simp
    ultimately show ?thesis by (cases "upd c") simp_all
  qed
qed

lemma set_in_result_object:
  assumes "set_in_result (JObject []) p x = Inr e"
  obtains d where "e = JObject d"
proof -
  have "shape e = shape (JObject [])"
  proof (cases "p = []")
    case True
    with assms show ?thesis by (simp add: set_in_result_def)
  next
    case False
    with assms show ?thesis
      using ensure_container_shape [of "JObject []" p "last p" x e] by (simp add: set_in_result_def)
  qed
  then show ?thesis using that by (cases e) (simp_all add: shape_def)
qed

lemma iterate_items_again:
  assumes "list_all simple_seg suffix"
  shows "sequence (map (iterate_entry suffix) rest) = Inr es \<Longrightarrow>
         iterate_items (done @ es) (enumerate (length done) rest) suffix = Inr (done @ es)"
proof (induction rest arbitrary: "done" es)
  case Nil
  then show ?case by simp
next
  case (Cons x rest)
  from Cons.prems obtain e es' where es: "es = e # es'"
    and e: "iterate_entry suffix x = Inr e"
    and s: "sequence (map (iterate_entry suffix) rest) = Inr es'"
    by (cases "iterate_entry suffix x"; cases "sequence (map (iterate_entry suffix) rest)") auto
  have IH: "iterate_items (done @ e # es') (enumerate (Suc (length done)) rest) suffix
            = Inr (done @ e # es')"
    using Cons.IH [OF s, of "done @ [e]"] by simp
  have nth: "(done @ e # es') ! length done = e" by simp
  have upd: "(done @ e # es')[length done := e] = done @ e # es'" by simp
  show ?case
  proof (cases "suffix = []")
    case True
    with e have "e = x" by (simp add: iterate_entry_def)
    with True es IH upd show ?thesis by simp
  next
    case False
    show ?thesis
    proof (cases "get_value x suffix")
      case None
      with False es IH show ?thesis by simp
    next
      case (Some v)
      with False e have set: "set_in_result (JObject []) suffix v = Inr e"
        by (simp add: iterate_entry_def)
      then obtain d where d: "e = JObject d" by (rule set_in_result_object)
      from assms set have "set_in_result e suffix v = Inr e" by (rule set_in_result_idem)
      with False Some es IH d upd nth show ?thesis by simp
    qed
  qed
qed

lemma apply_segments_collection_nest:
  assumes "is_coll c" and "ks \<noteq> []"
    and "get_value data (map Key ks) = Some (JArray arr)"
    and "resolve_list_segment arr c \<noteq> []"
  shows "apply_segments data (map Key ks @ c # suffix) (nest ks (JArray ys))
           = map_result (nest ks) (fill_container arr c suffix (JArray ys))"
  using assms
  by (simp add: apply_segments_def takeWhile_keys dropWhile_keys nav_container_nest)

lemma apply_segments_iterate_idem:
  assumes "list_all simple_seg suffix" and "ks \<noteq> []"
    and "apply_segments data (map Key ks @ Iterate # suffix) (JObject []) = Inr r"
  shows "apply_segments data (map Key ks @ Iterate # suffix) r = Inr r"
proof -
  have c: "is_coll Iterate" by (simp add: is_coll_def)
  let ?segs = "map Key ks @ Iterate # suffix"
  have ne: "?segs \<noteq> []" by simp
  show ?thesis
  proof (cases "\<exists>arr. get_value data (map Key ks) = Some (JArray arr) \<and> arr \<noteq> []")
    case True
    then obtain arr where arr: "get_value data (map Key ks) = Some (JArray arr)" "arr \<noteq> []"
      by blast
    from arr(2) have r: "resolve_list_segment arr Iterate \<noteq> []"
      by (cases arr) (simp_all add: resolve_list_segment_def)
    have "apply_segments data ?segs (JObject [])
        = map_result (nest ks) (fill_container arr Iterate suffix (JArray []))"
      using c assms(2) arr(1) r by (rule apply_segments_collection)
    with assms(3) obtain es where es: "sequence (map (iterate_entry suffix) arr) = Inr es"
      and req: "r = nest ks (JArray es)"
      by (cases "sequence (map (iterate_entry suffix) arr)") (auto simp: fill_container_iterate)
    have len: "length es = length arr" using sequence_length [OF es] by simp
    have "iterate_items ([] @ es) (enumerate (length ([] :: json list)) arr) suffix = Inr ([] @ es)"
      using assms(1) es by (rule iterate_items_again)
    then have "fill_container arr Iterate suffix (JArray es) = Inr (JArray es)"
      using len by (simp add: fill_container_def resolve_list_segment_def pad_def)
    moreover have "apply_segments data ?segs (nest ks (JArray es))
        = map_result (nest ks) (fill_container arr Iterate suffix (JArray es))"
      using c assms(2) arr(1) r by (rule apply_segments_collection_nest)
    ultimately show ?thesis using req by simp
  next
    case False
    have same: "apply_segments data ?segs res = Inr res" for res
    proof (cases "get_value data (map Key ks)")
      case None
      then show ?thesis
        by (simp add: apply_segments_def takeWhile_keys dropWhile_keys c)
    next
      case (Some a)
      show ?thesis
      proof (cases "\<exists>arr. a = JArray arr")
        case True
        then obtain arr where "a = JArray arr" by blast
        with Some False have "arr = []" by simp
        with Some \<open>a = JArray arr\<close> show ?thesis
          by (simp add: apply_segments_def takeWhile_keys dropWhile_keys c resolve_list_segment_def)
      next
        case False
        with Some show ?thesis
          by (cases a) (simp_all add: apply_segments_def takeWhile_keys dropWhile_keys c)
      qed
    qed
    from same [of "JObject []"] assms(3) have "r = JObject []" by simp
    with same [of r] show ?thesis by simp
  qed
qed

lemma repeated_spec_general:
  assumes "parse_path_segments spec = Inr p"
    and idem: "\<And>r. apply_segments data p (JObject []) = Inr r \<Longrightarrow> apply_segments data p r = Inr r"
  shows "filter_response data [spec, spec] = filter_response data [spec]"
proof (cases "strip spec = [] \<or> strip spec = ''*''")
  case True
  then show ?thesis by (auto simp: filter_response_def)
next
  case False
  from assms(1) have parse: "parse_path_segments (strip spec) = Inr p"
    by (simp add: parse_path_segments_strip)
  show ?thesis
  proof (cases "\<exists>d. data = JObject d")
    case obj: True
    then obtain d where d: "data = JObject d" by blast
    show ?thesis
    proof (cases "apply_segments data p (JObject [])")
      case (Inl e)
      with False d parse show ?thesis
        by (simp add: filter_response_def apply_spec_def)
    next
      case (Inr r)
      then have "apply_segments data p r = Inr r" by (rule idem)
      with Inr False d parse show ?thesis
        by (simp add: filter_response_def apply_spec_def)
    qed
  next
    case nobj: False
    with False show ?thesis
      by (cases data) (simp_all add: filter_response_def)
  qed
qed

text \<open>
  Two specs that write below different keys of the same object do not meet: the second finds
  no key of its own in what the first has built and appends its own pair.
\<close>

lemma dict_set_append: "map_of e k = None \<Longrightarrow> dict_set e k c = e @ [(k, c)]"
  by (induction e) (auto split: if_splits)

lemma ci_get_None_map_of: "ci_get e k = None \<Longrightarrow> map_of e k = None"
  by (cases "map_of e k") (simp_all add: ci_get_def)

lemma fst_dict_set:
  "map fst (dict_set d k v) = (if k \<in> fst ` set d then map fst d else map fst d @ [k])"
  by (induction d) force+

lemma set_dict_set: "set (dict_set d k v) \<subseteq> insert (k, v) (set d)"
  by (induction d) (auto split: if_splits)

lemma wf_dict_set:
  assumes "wf_json (JObject d)" and "wf_json v"
  shows "wf_json (JObject (dict_set d k v))"
proof -
  from assms(1) have "distinct (map fst (dict_set d k v))"
    by (simp add: fst_dict_set)
  moreover have "wf_json w" if "w \<in> set (map snd (dict_set d k v))" for w
  proof -
    from that obtain a where "(a, w) \<in> set (dict_set d k v)" by auto
    with set_dict_set [of d k v] have "(a, w) = (k, v) \<or> (a, w) \<in> set d" by auto
    with assms show ?thesis by force
  qed
  ultimately show ?thesis by simp
qed

lemma wf_ci_get: "wf_json (JObject d) \<Longrightarrow> ci_get d k = Some (a, v) \<Longrightarrow> wf_json v"
proof -
  assume wf: "wf_json (JObject d)" and c: "ci_get d k = Some (a, v)"
  have "(a, v) \<in> set d"
  proof (cases "map_of d k")
    case None
    with c have "find (\<lambda>(k', v). lower k' = lower k) d = Some (a, v)" by (simp add: ci_get_def)
    then show ?thesis by (metis find_Some_iff nth_mem)
  next
    case (Some w)
    with c have "a = k" "v = w" by (simp_all add: ci_get_def)
    with Some show ?thesis by (simp add: map_of_SomeD)
  qed
  with wf show ?thesis by force
qed

lemma wf_py_index: "wf_json (JArray xs) \<Longrightarrow> py_index xs i = Some v \<Longrightarrow> wf_json v"
  by (auto simp: py_index_def norm_index_def Let_def split: if_splits)

lemma get_value_wf: "wf_json v \<Longrightarrow> get_value v p = Some x \<Longrightarrow> wf_json x"
proof (induction p arbitrary: v)
  case Nil
  then show ?case by simp
next
  case (Cons seg p)
  show ?case
  proof (cases seg)
    case (Key s)
    with Cons.prems obtain d a w where v: "v = JObject d" and c: "ci_get d s = Some (a, w)"
      and g: "get_value w p = Some x"
      by (cases v) (auto split: option.splits if_splits)
    from Cons.prems(1) v c have "wf_json w" by (simp only: wf_ci_get)
    then show ?thesis using g by (rule Cons.IH)
  next
    case (Index i)
    with Cons.prems obtain xs w where v: "v = JArray xs" and c: "py_index xs i = Some w"
      and g: "get_value w p = Some x"
      by (cases v) (auto split: option.splits if_splits)
    from Cons.prems(1) v c have "wf_json w" by (simp only: wf_py_index)
    then show ?thesis using g by (rule Cons.IH)
  qed (use Cons.prems in \<open>simp_all split: if_splits\<close>)
qed

lemma wf_pad: "wf_json (JArray xs) \<Longrightarrow> wf_json v \<Longrightarrow> wf_json (JArray (pad xs n v))"
  by (auto simp: pad_def)

lemma wf_update: "wf_json (JArray xs) \<Longrightarrow> wf_json v \<Longrightarrow> wf_json (JArray (xs[j := v]))"
  by (auto dest!: set_update_subset_insert [THEN subsetD])

lemma set_last_ok:
  "simple_seg l \<Longrightarrow> wf_json t \<Longrightarrow> wf_json x \<Longrightarrow> \<exists>r. set_last l x t = Inr r \<and> wf_json r"
proof (cases l)
  case (Key s)
  assume wf: "wf_json t" "wf_json x"
  show ?thesis
  proof (cases "\<exists>d. t = JObject d")
    case True
    then obtain d where t: "t = JObject d" by blast
    with wf have "wf_json (JObject (dict_set d s x))" by (simp only: wf_dict_set)
    with Key t show ?thesis by (simp add: set_last_def del: wf_json.simps)
  next
    case False
    with Key wf show ?thesis by (cases t) (simp_all add: set_last_def)
  qed
next
  case (Index i)
  assume s: "simple_seg l" and wf: "wf_json t" "wf_json x"
  with Index have i: "0 \<le> i" by (simp add: simple_seg_def)
  show ?thesis
  proof (cases "\<exists>xs. t = JArray xs")
    case True
    then obtain xs where t: "t = JArray xs" by blast
    have "wf_json (JArray ((pad xs (nat i + 1) JNull)[nat i := x]))"
      using wf t by (intro wf_update wf_pad) simp_all
    with Index t i show ?thesis
      by (simp add: set_last_def norm_index_nonneg del: wf_json.simps)
  next
    case False
    with Index wf show ?thesis by (cases t) (simp_all add: set_last_def)
  qed
qed (simp_all add: simple_seg_def)


lemma ensure_container_ok:
  "list_all simple_seg p \<Longrightarrow> p \<noteq> [] \<Longrightarrow> wf_json t \<Longrightarrow> wf_json x \<Longrightarrow>
   \<exists>r. ensure_container t p (set_last (last p) x) = Inr r \<and> wf_json r"
proof (induction p arbitrary: t)
  case Nil
  then show ?case by simp
next
  case (Cons seg rest)
  show ?case
  proof (cases rest)
    case Nil
    from Cons.prems have "simple_seg seg" by simp
    from set_last_ok [OF this Cons.prems(3,4)] Nil show ?thesis by simp
  next
    case (Cons s2 rest')
    define upd where "upd = set_last (last rest) x"
    have last_eq: "set_last (last (seg # rest)) x = upd" using Cons by (simp add: upd_def)
    have ne: "rest \<noteq> []" using Cons by simp
    have simple: "list_all simple_seg rest" using Cons.prems by simp
    have IH: "\<exists>r. ensure_container c rest upd = Inr r \<and> wf_json r" if "wf_json c" for c
      unfolding upd_def using simple ne that Cons.prems(4) by (rule Cons.IH)
    have skip: "\<exists>r. ensure_container t rest upd = Inr r \<and> wf_json r"
      using Cons.prems(3) by (rule IH)
    have goal: "\<exists>r. ensure_container t (seg # s2 # rest') upd = Inr r \<and> wf_json r"
    proof (cases seg)
      case (Key s)
      show ?thesis
      proof (cases "\<exists>d. t = JObject d")
        case True
        then obtain d where t: "t = JObject d" by blast
        show ?thesis
        proof (cases "ci_get d s")
          case None
          let ?c0 = "if is_key s2 then JObject [] else JArray []"
          have "wf_json ?c0" by simp
          from IH [OF this] obtain c where c: "ensure_container ?c0 rest upd = Inr c" "wf_json c"
            by blast
          from Cons.prems(3) t c(2) have "wf_json (JObject (dict_set d s c))"
            by (simp only: wf_dict_set)
          with Key t None c(1) Cons show ?thesis by (simp del: wf_json.simps)
        next
          case (Some ac)
          obtain a child where ac: "ac = (a, child)" by (cases ac)
          from Cons.prems(3) t Some ac have "wf_json child" by (simp only: wf_ci_get)
          from IH [OF this] obtain c where c: "ensure_container child rest upd = Inr c" "wf_json c"
            by blast
          from Cons.prems(3) t c(2) have "wf_json (JObject (dict_set d a c))"
            by (simp only: wf_dict_set)
          with Key t Some ac c(1) Cons show ?thesis by (simp del: wf_json.simps)
        qed
      next
        case False
        then have "ensure_container t (seg # s2 # rest') upd = ensure_container t (s2 # rest') upd"
          using Key by (cases t) simp_all
        with skip Cons show ?thesis by simp
      qed
    next
      case (Index i)
      with Cons.prems have i: "0 \<le> i" by (simp add: simple_seg_def)
      show ?thesis
      proof (cases "\<exists>xs. t = JArray xs")
        case True
        then obtain xs where t: "t = JArray xs" by blast
        let ?xs = "pad xs (nat i + 1) (JObject [])"
        have len: "nat i < length ?xs" by simp
        have wfp: "wf_json (JArray ?xs)" using Cons.prems(3) t by (intro wf_pad) simp_all
        with len have "wf_json (?xs ! nat i)" by simp
        from IH [OF this] obtain c where c: "ensure_container (?xs ! nat i) rest upd = Inr c" "wf_json c"
          by blast
        from wfp c(2) have "wf_json (JArray (?xs[nat i := c]))" by (rule wf_update)
        with Index t i c(1) Cons len show ?thesis
          by (simp add: norm_index_nonneg Let_def del: wf_json.simps)
      next
        case False
        then have "ensure_container t (seg # s2 # rest') upd = ensure_container t (s2 # rest') upd"
          using Index by (cases t) simp_all
        with skip Cons show ?thesis by simp
      qed
    qed (use Cons.prems in \<open>simp_all add: simple_seg_def\<close>)
    then have "\<exists>r. ensure_container t (seg # rest) upd = Inr r \<and> wf_json r"
      unfolding Cons .
    then show ?thesis by (simp only: last_eq)
  qed
qed

lemma key_entry:
  assumes "list_all simple_seg r" and "wf_json x"
  shows "\<exists>c. wf_json c
           \<and> (\<forall>e. ci_get e k = None \<longrightarrow>
                  set_in_result (JObject e) (Key k # r) x = Inr (JObject (e @ [(k, c)])))"
proof (cases r)
  case Nil
  have "set_in_result (JObject e) [Key k] x = Inr (JObject (e @ [(k, x)]))" if "ci_get e k = None" for e
    using that by (simp add: set_in_result_def set_last_def dict_set_append ci_get_None_map_of)
  with Nil assms(2) show ?thesis by blast
next
  case (Cons s2 rest')
  let ?c0 = "if is_key s2 then JObject [] else JArray []"
  have "wf_json ?c0" by simp
  with assms Cons obtain c where c: "ensure_container ?c0 r (set_last (last r) x) = Inr c" "wf_json c"
    using ensure_container_ok [of r ?c0 x] by auto
  have "set_in_result (JObject e) (Key k # r) x = Inr (JObject (e @ [(k, c)]))" if "ci_get e k = None" for e
  proof -
    have "set_in_result (JObject e) (Key k # r) x
            = ensure_container (JObject e) (Key k # s2 # rest') (set_last (last r) x)"
      using Cons by (simp add: set_in_result_def)
    also have "\<dots> = Inr (JObject (dict_set e k c))"
      using that c(1) Cons by simp
    finally show ?thesis using that by (simp add: dict_set_append ci_get_None_map_of)
  qed
  with c(2) show ?thesis by blast
qed


lemma entry_pairs:
  assumes "list_all simple_seg r"
  shows "\<exists>A. \<forall>item. wf_json item \<longrightarrow>
           (A item = [] \<or> (\<exists>c. wf_json c \<and> A item = [(k, c)]))
           \<and> (get_value item (Key k # r) = None \<longrightarrow> A item = [])
           \<and> (\<forall>e x. ci_get e k = None \<longrightarrow> get_value item (Key k # r) = Some x \<longrightarrow>
                  set_in_result (JObject e) (Key k # r) x = Inr (JObject (e @ A item)))"
proof -
  from key_entry [OF assms]
  have "\<forall>x. \<exists>c. wf_json x \<longrightarrow> wf_json c
           \<and> (\<forall>e. ci_get e k = None \<longrightarrow>
                  set_in_result (JObject e) (Key k # r) x = Inr (JObject (e @ [(k, c)])))"
    by blast
  then obtain cf where cf: "\<And>x. wf_json x \<Longrightarrow> wf_json (cf x)"
    "\<And>x e. wf_json x \<Longrightarrow> ci_get e k = None \<Longrightarrow>
        set_in_result (JObject e) (Key k # r) x = Inr (JObject (e @ [(k, cf x)]))"
    by metis
  define A where "A item = (case get_value item (Key k # r) of Some x \<Rightarrow> [(k, cf x)] | None \<Rightarrow> [])"
    for item
  have "(A item = [] \<or> (\<exists>c. wf_json c \<and> A item = [(k, c)]))
           \<and> (get_value item (Key k # r) = None \<longrightarrow> A item = [])
           \<and> (\<forall>e x. ci_get e k = None \<longrightarrow> get_value item (Key k # r) = Some x \<longrightarrow>
                  set_in_result (JObject e) (Key k # r) x = Inr (JObject (e @ A item)))"
    if wf: "wf_json item" for item
  proof (cases "get_value item (Key k # r)")
    case None
    then show ?thesis by (simp add: A_def)
  next
    case (Some x)
    with wf have x: "wf_json x" by (rule get_value_wf)
    from Some have a: "A item = [(k, cf x)]" by (simp add: A_def)
    with Some x cf(1) [OF x] cf(2) [OF x] show ?thesis by simp
  qed
  then show ?thesis by blast
qed

lemma iterate_pass:
  assumes ne: "suffix \<noteq> []"
    and found: "\<And>item x. item \<in> set arr \<Longrightarrow> get_value item suffix = Some x \<Longrightarrow>
                  set_in_result (JObject (a item)) suffix x = Inr (JObject (b item))"
    and missing: "\<And>item. item \<in> set arr \<Longrightarrow> get_value item suffix = None \<Longrightarrow> b item = a item"
  shows "set rest \<subseteq> set arr \<Longrightarrow>
         iterate_items (done @ map (\<lambda>item. JObject (a item)) rest) (enumerate (length done) rest) suffix
           = Inr (done @ map (\<lambda>item. JObject (b item)) rest)"
proof (induction rest arbitrary: "done")
  case Nil
  then show ?case by simp
next
  case (Cons x rest)
  from Cons.prems have x: "x \<in> set arr" and sub: "set rest \<subseteq> set arr" by simp_all
  have IH: "iterate_items (done @ e # map (\<lambda>item. JObject (a item)) rest)
              (enumerate (Suc (length done)) rest) suffix
            = Inr (done @ e # map (\<lambda>item. JObject (b item)) rest)" for e
    using Cons.IH [OF sub, of "done @ [e]"] by simp
  show ?case
  proof (cases "get_value x suffix")
    case None
    with missing [OF x] have "b x = a x" by simp
    with None ne IH [of "JObject (a x)"] show ?thesis by simp
  next
    case (Some v)
    from found [OF x Some] have "set_in_result (JObject (a x)) suffix v = Inr (JObject (b x))" .
    with Some ne IH [of "JObject (b x)"] show ?thesis by simp
  qed
qed

lemma fill_pass:
  assumes ne: "suffix \<noteq> []"
    and found: "\<And>item x. item \<in> set arr \<Longrightarrow> get_value item suffix = Some x \<Longrightarrow>
                  set_in_result (JObject (a item)) suffix x = Inr (JObject (b item))"
    and missing: "\<And>item. item \<in> set arr \<Longrightarrow> get_value item suffix = None \<Longrightarrow> b item = a item"
  shows "fill_container arr Iterate suffix (JArray (map (\<lambda>item. JObject (a item)) arr))
           = Inr (JArray (map (\<lambda>item. JObject (b item)) arr))"
proof -
  have "iterate_items ([] @ map (\<lambda>item. JObject (a item)) arr) (enumerate (length ([] :: json list)) arr) suffix
          = Inr ([] @ map (\<lambda>item. JObject (b item)) arr)"
  proof (rule iterate_pass)
    show "suffix \<noteq> []" by (rule ne)
    show "set_in_result (JObject (a item)) suffix x = Inr (JObject (b item))"
      if "item \<in> set arr" "get_value item suffix = Some x" for item x
      using that by (rule found)
    show "b item = a item" if "item \<in> set arr" "get_value item suffix = None" for item
      using that by (rule missing)
    show "set arr \<subseteq> set arr" by simp
  qed
  then show ?thesis
    by (simp add: fill_container_def resolve_list_segment_def pad_full)
qed

lemma fill_fresh:
  "fill_container arr Iterate suffix (JArray [])
     = fill_container arr Iterate suffix (JArray (map (\<lambda>item. JObject []) arr))"
  by (simp add: fill_container_def pad_def map_replicate_const)

lemma py_eq_swap:
  assumes "A1 = [] \<or> (\<exists>c. wf_json c \<and> A1 = [(k1, c)])"
    and "A2 = [] \<or> (\<exists>c. wf_json c \<and> A2 = [(k2, c)])" and "k1 \<noteq> k2"
  shows "py_eq (JObject (A1 @ A2)) (JObject (A2 @ A1))"
  using assms py_eq_refl by auto

lemma py_eq_nest: "py_eq a b \<Longrightarrow> py_eq (nest ks a) (nest ks b)"
  by (induction ks) simp_all

lemma py_eq_list_map: "(\<And>x. x \<in> set xs \<Longrightarrow> py_eq (f x) (g x)) \<Longrightarrow> py_eq_list (map f xs) (map g xs)"
  by (induction xs) simp_all

lemma ci_get_other_key:
  assumes "lower k1 \<noteq> lower k2" and "A = [] \<or> (\<exists>c. A = [(k1, c)])"
  shows "ci_get A k2 = None"
  using assms by (auto simp: ci_get_def)

lemma apply_segments_collection_skip:
  assumes "is_coll c"
    and "\<not> (\<exists>arr. get_value data (map Key ks) = Some (JArray arr) \<and> resolve_list_segment arr c \<noteq> [])"
  shows "apply_segments data (map Key ks @ c # suffix) res = Inr res"
proof (cases "get_value data (map Key ks)")
  case None
  then show ?thesis
    by (simp add: apply_segments_def takeWhile_keys dropWhile_keys assms(1))
next
  case (Some a)
  show ?thesis
  proof (cases "\<exists>arr. a = JArray arr")
    case True
    then obtain arr where "a = JArray arr" by blast
    with Some assms(2) show ?thesis
      by (simp add: apply_segments_def takeWhile_keys dropWhile_keys assms(1))
  next
    case False
    with Some show ?thesis
      by (cases a) (simp_all add: apply_segments_def takeWhile_keys dropWhile_keys assms(1))
  qed
qed


lemma filter_response_pair:
  assumes "parse_path_segments s1 = Inr p1" and "parse_path_segments s2 = Inr p2"
    and "p1 \<noteq> []" and "p2 \<noteq> []" and "strip s1 \<noteq> ''*''" and "strip s2 \<noteq> ''*''"
  shows "filter_response (JObject d) [s1, s2]
           = (case apply_segments (JObject d) p1 (JObject []) of
                Inl e \<Rightarrow> Inl e
              | Inr r \<Rightarrow> apply_segments (JObject d) p2 r)"
proof -
  from assms have ne: "strip s1 \<noteq> []" "strip s2 \<noteq> []"
    using parse_path_segments_empty [of s1] parse_path_segments_empty [of s2] by auto
  from assms have "parse_path_segments (strip s1) = Inr p1" "parse_path_segments (strip s2) = Inr p2"
    by (simp_all add: parse_path_segments_strip)
  with ne assms(5,6) show ?thesis
    by (cases "apply_segments (JObject d) p1 (JObject [])")
      (auto simp: filter_response_def apply_spec_def split: sum.splits)
qed

lemma iterate_then:
  assumes ks: "ks \<noteq> []" and arr: "get_value data (map Key ks) = Some (JArray arr)" "arr \<noteq> []"
    and k: "lower k1 \<noteq> lower k2"
    and a1: "\<And>item. item \<in> set arr \<Longrightarrow> A1 item = [] \<or> (\<exists>c. A1 item = [(k1, c)])"
    and f1: "\<And>item e x. item \<in> set arr \<Longrightarrow> ci_get e k1 = None \<Longrightarrow>
                get_value item (Key k1 # r1) = Some x \<Longrightarrow>
                set_in_result (JObject e) (Key k1 # r1) x = Inr (JObject (e @ A1 item))"
    and m1: "\<And>item. item \<in> set arr \<Longrightarrow> get_value item (Key k1 # r1) = None \<Longrightarrow> A1 item = []"
    and f2: "\<And>item e x. item \<in> set arr \<Longrightarrow> ci_get e k2 = None \<Longrightarrow>
                get_value item (Key k2 # r2) = Some x \<Longrightarrow>
                set_in_result (JObject e) (Key k2 # r2) x = Inr (JObject (e @ A2 item))"
    and m2: "\<And>item. item \<in> set arr \<Longrightarrow> get_value item (Key k2 # r2) = None \<Longrightarrow> A2 item = []"
  shows "(case apply_segments data (map Key ks @ Iterate # Key k1 # r1) (JObject []) of
            Inl e \<Rightarrow> Inl e
          | Inr r \<Rightarrow> apply_segments data (map Key ks @ Iterate # Key k2 # r2) r)
         = Inr (nest ks (JArray (map (\<lambda>item. JObject (A1 item @ A2 item)) arr)))"
proof -
  have c: "is_coll Iterate" by (simp add: is_coll_def)
  from arr(2) have r: "resolve_list_segment arr Iterate \<noteq> []"
    by (cases arr) (simp_all add: resolve_list_segment_def)
  have "fill_container arr Iterate (Key k1 # r1) (JArray (map (\<lambda>item. JObject []) arr))
          = Inr (JArray (map (\<lambda>item. JObject (A1 item)) arr))"
  proof (rule fill_pass)
    show "Key k1 # r1 \<noteq> []" by simp
    show "set_in_result (JObject []) (Key k1 # r1) x = Inr (JObject (A1 item))"
      if "item \<in> set arr" "get_value item (Key k1 # r1) = Some x" for item x
      using f1 [OF that(1) _ that(2), of "[]"] by simp
    show "A1 item = []" if "item \<in> set arr" "get_value item (Key k1 # r1) = None" for item
      using that by (rule m1)
  qed
  then have first: "apply_segments data (map Key ks @ Iterate # Key k1 # r1) (JObject [])
          = Inr (nest ks (JArray (map (\<lambda>item. JObject (A1 item)) arr)))"
    using apply_segments_collection [OF c ks arr(1) r, of "Key k1 # r1"]
    by (simp add: fill_fresh)
  have "fill_container arr Iterate (Key k2 # r2) (JArray (map (\<lambda>item. JObject (A1 item)) arr))
          = Inr (JArray (map (\<lambda>item. JObject (A1 item @ A2 item)) arr))"
  proof (rule fill_pass)
    show "Key k2 # r2 \<noteq> []" by simp
    show "set_in_result (JObject (A1 item)) (Key k2 # r2) x = Inr (JObject (A1 item @ A2 item))"
      if "item \<in> set arr" "get_value item (Key k2 # r2) = Some x" for item x
    proof -
      from k a1 [OF that(1)] have n: "ci_get (A1 item) k2 = None" by (rule ci_get_other_key)
      show ?thesis using that(1) n that(2) by (rule f2)
    qed
    show "A1 item @ A2 item = A1 item" if "item \<in> set arr" "get_value item (Key k2 # r2) = None" for item
      using m2 [OF that] by simp
  qed
  then have "apply_segments data (map Key ks @ Iterate # Key k2 # r2)
               (nest ks (JArray (map (\<lambda>item. JObject (A1 item)) arr)))
          = Inr (nest ks (JArray (map (\<lambda>item. JObject (A1 item @ A2 item)) arr)))"
    using apply_segments_collection_nest [OF c ks arr(1) r, of "Key k2 # r2"]
    by simp
  with first show ?thesis by simp
qed


lemma lower_neq: "lower k1 \<noteq> lower k2 \<Longrightarrow> k1 \<noteq> k2"
  by auto

lemma iterate_order:
  assumes p1: "parse_path_segments s1 = Inr (map Key ks @ Iterate # Key k1 # r1)"
    and p2: "parse_path_segments s2 = Inr (map Key ks @ Iterate # Key k2 # r2)"
    and ks: "ks \<noteq> []" and k: "lower k1 \<noteq> lower k2"
    and r1: "list_all simple_seg r1" and r2: "list_all simple_seg r2"
    and wf: "wf_json (JObject d)"
  shows "\<exists>t12 t21. filter_response (JObject d) [s1, s2] = Inr t12
           \<and> filter_response (JObject d) [s2, s1] = Inr t21 \<and> py_eq t12 t21"
proof -
  have c: "is_coll Iterate" by (simp add: is_coll_def)
  from p1 c have st1: "strip s1 \<noteq> ''*''" by (rule collection_spec_not_star)
  from p2 c have st2: "strip s2 \<noteq> ''*''" by (rule collection_spec_not_star)
  have run12: "filter_response (JObject d) [s1, s2]
      = (case apply_segments (JObject d) (map Key ks @ Iterate # Key k1 # r1) (JObject []) of
           Inl e \<Rightarrow> Inl e
         | Inr r \<Rightarrow> apply_segments (JObject d) (map Key ks @ Iterate # Key k2 # r2) r)"
    using p1 p2 _ _ st1 st2 by (rule filter_response_pair) simp_all
  have run21: "filter_response (JObject d) [s2, s1]
      = (case apply_segments (JObject d) (map Key ks @ Iterate # Key k2 # r2) (JObject []) of
           Inl e \<Rightarrow> Inl e
         | Inr r \<Rightarrow> apply_segments (JObject d) (map Key ks @ Iterate # Key k1 # r1) r)"
    using p2 p1 _ _ st2 st1 by (rule filter_response_pair) simp_all
  show ?thesis
  proof (cases "\<exists>arr. get_value (JObject d) (map Key ks) = Some (JArray arr) \<and> arr \<noteq> []")
    case True
    then obtain arr where arr: "get_value (JObject d) (map Key ks) = Some (JArray arr)" "arr \<noteq> []"
      by blast
    from wf arr(1) have "wf_json (JArray arr)" by (rule get_value_wf)
    then have items: "\<And>item. item \<in> set arr \<Longrightarrow> wf_json item" by simp
    from entry_pairs [OF r1, of k1] obtain A1 where
      A1: "\<And>item. wf_json item \<Longrightarrow> A1 item = [] \<or> (\<exists>c. wf_json c \<and> A1 item = [(k1, c)])"
        "\<And>item. wf_json item \<Longrightarrow> get_value item (Key k1 # r1) = None \<Longrightarrow> A1 item = []"
        "\<And>item e x. wf_json item \<Longrightarrow> ci_get e k1 = None \<Longrightarrow> get_value item (Key k1 # r1) = Some x \<Longrightarrow>
            set_in_result (JObject e) (Key k1 # r1) x = Inr (JObject (e @ A1 item))"
      by metis
    from entry_pairs [OF r2, of k2] obtain A2 where
      A2: "\<And>item. wf_json item \<Longrightarrow> A2 item = [] \<or> (\<exists>c. wf_json c \<and> A2 item = [(k2, c)])"
        "\<And>item. wf_json item \<Longrightarrow> get_value item (Key k2 # r2) = None \<Longrightarrow> A2 item = []"
        "\<And>item e x. wf_json item \<Longrightarrow> ci_get e k2 = None \<Longrightarrow> get_value item (Key k2 # r2) = Some x \<Longrightarrow>
            set_in_result (JObject e) (Key k2 # r2) x = Inr (JObject (e @ A2 item))"
      by metis
    have t12: "filter_response (JObject d) [s1, s2]
        = Inr (nest ks (JArray (map (\<lambda>item. JObject (A1 item @ A2 item)) arr)))"
      unfolding run12
    proof (rule iterate_then [OF ks arr k])
      show "A1 item = [] \<or> (\<exists>c. A1 item = [(k1, c)])" if "item \<in> set arr" for item
        using A1(1) [OF items [OF that]] by blast
      show "set_in_result (JObject e) (Key k1 # r1) x = Inr (JObject (e @ A1 item))"
        if "item \<in> set arr" "ci_get e k1 = None" "get_value item (Key k1 # r1) = Some x" for item e x
        using items [OF that(1)] that(2,3) by (rule A1(3))
      show "A1 item = []" if "item \<in> set arr" "get_value item (Key k1 # r1) = None" for item
        using items [OF that(1)] that(2) by (rule A1(2))
      show "set_in_result (JObject e) (Key k2 # r2) x = Inr (JObject (e @ A2 item))"
        if "item \<in> set arr" "ci_get e k2 = None" "get_value item (Key k2 # r2) = Some x" for item e x
        using items [OF that(1)] that(2,3) by (rule A2(3))
      show "A2 item = []" if "item \<in> set arr" "get_value item (Key k2 # r2) = None" for item
        using items [OF that(1)] that(2) by (rule A2(2))
    qed
    from k have k': "lower k2 \<noteq> lower k1" by simp
    have t21: "filter_response (JObject d) [s2, s1]
        = Inr (nest ks (JArray (map (\<lambda>item. JObject (A2 item @ A1 item)) arr)))"
      unfolding run21
    proof (rule iterate_then [OF ks arr k'])
      show "A2 item = [] \<or> (\<exists>c. A2 item = [(k2, c)])" if "item \<in> set arr" for item
        using A2(1) [OF items [OF that]] by blast
      show "set_in_result (JObject e) (Key k1 # r1) x = Inr (JObject (e @ A1 item))"
        if "item \<in> set arr" "ci_get e k1 = None" "get_value item (Key k1 # r1) = Some x" for item e x
        using items [OF that(1)] that(2,3) by (rule A1(3))
      show "A1 item = []" if "item \<in> set arr" "get_value item (Key k1 # r1) = None" for item
        using items [OF that(1)] that(2) by (rule A1(2))
      show "set_in_result (JObject e) (Key k2 # r2) x = Inr (JObject (e @ A2 item))"
        if "item \<in> set arr" "ci_get e k2 = None" "get_value item (Key k2 # r2) = Some x" for item e x
        using items [OF that(1)] that(2,3) by (rule A2(3))
      show "A2 item = []" if "item \<in> set arr" "get_value item (Key k2 # r2) = None" for item
        using items [OF that(1)] that(2) by (rule A2(2))
    qed
    have "py_eq (JObject (A1 item @ A2 item)) (JObject (A2 item @ A1 item))" if "item \<in> set arr" for item
      using A1(1) [OF items [OF that]] A2(1) [OF items [OF that]] lower_neq [OF k]
      by (rule py_eq_swap)
    then have "py_eq_list (map (\<lambda>item. JObject (A1 item @ A2 item)) arr)
                 (map (\<lambda>item. JObject (A2 item @ A1 item)) arr)"
      by (rule py_eq_list_map)
    then have "py_eq (nest ks (JArray (map (\<lambda>item. JObject (A1 item @ A2 item)) arr)))
                 (nest ks (JArray (map (\<lambda>item. JObject (A2 item @ A1 item)) arr)))"
      by (intro py_eq_nest) simp
    with t12 t21 show ?thesis by blast
  next
    case False
    then have no: "\<not> (\<exists>arr. get_value (JObject d) (map Key ks) = Some (JArray arr)
                        \<and> resolve_list_segment arr Iterate \<noteq> [])"
      by (auto simp: resolve_list_segment_def)
    have "apply_segments (JObject d) (map Key ks @ Iterate # suffix) res = Inr res" for suffix res
      using c no by (rule apply_segments_collection_skip)
    with run12 run21 have "filter_response (JObject d) [s1, s2] = Inr (JObject [])"
      "filter_response (JObject d) [s2, s1] = Inr (JObject [])"
      by simp_all
    then show ?thesis by simp
  qed
qed

lemma simple_order:
  assumes p1: "parse_path_segments s1 = Inr (Key k1 # r1)"
    and p2: "parse_path_segments s2 = Inr (Key k2 # r2)"
    and k: "lower k1 \<noteq> lower k2"
    and r1: "list_all simple_seg r1" and r2: "list_all simple_seg r2"
    and wf: "wf_json (JObject d)"
  shows "\<exists>t12 t21. filter_response (JObject d) [s1, s2] = Inr t12
           \<and> filter_response (JObject d) [s2, s1] = Inr t21 \<and> py_eq t12 t21"
proof (cases "strip s1 = ''*'' \<or> strip s2 = ''*''")
  case True
  then have "filter_response (JObject d) [s1, s2] = Inr (JObject d)"
    "filter_response (JObject d) [s2, s1] = Inr (JObject d)"
    by (auto simp: filter_response_def)
  with py_eq_refl [OF wf] show ?thesis by blast
next
  case False
  then have st: "strip s1 \<noteq> ''*''" "strip s2 \<noteq> ''*''" by simp_all
  have run12: "filter_response (JObject d) [s1, s2]
      = (case apply_segments (JObject d) (Key k1 # r1) (JObject []) of
           Inl e \<Rightarrow> Inl e
         | Inr r \<Rightarrow> apply_segments (JObject d) (Key k2 # r2) r)"
    using p1 p2 _ _ st by (rule filter_response_pair) simp_all
  have run21: "filter_response (JObject d) [s2, s1]
      = (case apply_segments (JObject d) (Key k2 # r2) (JObject []) of
           Inl e \<Rightarrow> Inl e
         | Inr r \<Rightarrow> apply_segments (JObject d) (Key k1 # r1) r)"
    using p2 p1 _ _ st(2,1) by (rule filter_response_pair) simp_all
  from entry_pairs [OF r1, of k1] wf obtain A1 where
    A1: "A1 = [] \<or> (\<exists>c. wf_json c \<and> A1 = [(k1, c)])"
      "get_value (JObject d) (Key k1 # r1) = None \<Longrightarrow> A1 = []"
      "\<And>e x. ci_get e k1 = None \<Longrightarrow> get_value (JObject d) (Key k1 # r1) = Some x \<Longrightarrow>
          set_in_result (JObject e) (Key k1 # r1) x = Inr (JObject (e @ A1))"
    by metis
  from entry_pairs [OF r2, of k2] wf obtain A2 where
    A2: "A2 = [] \<or> (\<exists>c. wf_json c \<and> A2 = [(k2, c)])"
      "get_value (JObject d) (Key k2 # r2) = None \<Longrightarrow> A2 = []"
      "\<And>e x. ci_get e k2 = None \<Longrightarrow> get_value (JObject d) (Key k2 # r2) = Some x \<Longrightarrow>
          set_in_result (JObject e) (Key k2 # r2) x = Inr (JObject (e @ A2))"
    by metis
  have s1: "list_all simple_seg (Key k1 # r1)" and s2: "list_all simple_seg (Key k2 # r2)"
    using r1 r2 by (simp_all add: simple_seg_def)
  have ap1: "apply_segments (JObject d) (Key k1 # r1) (JObject e) = Inr (JObject (e @ A1))"
    if "ci_get e k1 = None" for e
  proof (cases "get_value (JObject d) (Key k1 # r1)")
    case None
    with A1(2) s1 show ?thesis by (simp add: apply_segments_def dropWhile_simple del: get_value.simps)
  next
    case (Some x)
    with A1(3) [OF that Some] s1 show ?thesis
      by (simp add: apply_segments_simple del: get_value.simps)
  qed
  have ap2: "apply_segments (JObject d) (Key k2 # r2) (JObject e) = Inr (JObject (e @ A2))"
    if "ci_get e k2 = None" for e
  proof (cases "get_value (JObject d) (Key k2 # r2)")
    case None
    with A2(2) s2 show ?thesis by (simp add: apply_segments_def dropWhile_simple del: get_value.simps)
  next
    case (Some x)
    with A2(3) [OF that Some] s2 show ?thesis
      by (simp add: apply_segments_simple del: get_value.simps)
  qed
  from k have k': "lower k2 \<noteq> lower k1" by simp
  have n12: "ci_get A1 k2 = None" using k A1(1) by (intro ci_get_other_key) auto
  have n21: "ci_get A2 k1 = None" using k' A2(1) by (intro ci_get_other_key) auto
  have "filter_response (JObject d) [s1, s2] = Inr (JObject (A1 @ A2))"
    unfolding run12 using ap1 [of "[]"] ap2 [OF n12] by simp
  moreover have "filter_response (JObject d) [s2, s1] = Inr (JObject (A2 @ A1))"
    unfolding run21 using ap2 [of "[]"] ap1 [OF n21] by simp
  moreover have "py_eq (JObject (A1 @ A2)) (JObject (A2 @ A1))"
    using A1(1) A2(1) lower_neq [OF k] by (rule py_eq_swap)
  ultimately show ?thesis by blast
qed

text \<open>
  Claim C6, as amended. Repeating a spec changes nothing, \<open>filter_response(v, [s, s])\<close> equals
  \<open>filter_response(v, [s])\<close> for every value \<open>v\<close>, when the spec has no collection point (a path
  of Key and non-negative Index segments), and when it is a path of keys, then \<open>[]\<close>, then a
  suffix of Key and non-negative Index segments. Exchanging two specs gives projections that are
  equal under Python's \<open>==\<close> (the keys may come in another order) when both specs are the same
  path of keys, then \<open>[]\<close>, then suffixes of Key and non-negative Index segments that start with
  keys different in lower case, as \<open>data[].id\<close> and \<open>data[].name\<close>; and when both specs have no
  collection point and start with keys different in lower case. The input is an object with
  distinct keys throughout. The statement is about the value model; the second spec rewrites or
  extends containers that the first one created.
\<close>

theorem spec_repetition_and_order:
  "(parse_path_segments spec = Inr p \<and> list_all simple_seg p
      \<longrightarrow> filter_response data [spec, spec] = filter_response data [spec])
   \<and> (parse_path_segments spec = Inr (map Key ks @ Iterate # suffix) \<and> ks \<noteq> []
        \<and> list_all simple_seg suffix
      \<longrightarrow> filter_response data [spec, spec] = filter_response data [spec])
   \<and> (parse_path_segments s1 = Inr (map Key ks @ Iterate # Key k1 # r1)
        \<and> parse_path_segments s2 = Inr (map Key ks @ Iterate # Key k2 # r2)
        \<and> ks \<noteq> [] \<and> lower k1 \<noteq> lower k2
        \<and> list_all simple_seg r1 \<and> list_all simple_seg r2 \<and> wf_json (JObject d)
      \<longrightarrow> (\<exists>t12 t21. filter_response (JObject d) [s1, s2] = Inr t12
                     \<and> filter_response (JObject d) [s2, s1] = Inr t21 \<and> py_eq t12 t21))
   \<and> (parse_path_segments s1 = Inr (Key k1 # r1) \<and> parse_path_segments s2 = Inr (Key k2 # r2)
        \<and> lower k1 \<noteq> lower k2
        \<and> list_all simple_seg r1 \<and> list_all simple_seg r2 \<and> wf_json (JObject d)
      \<longrightarrow> (\<exists>t12 t21. filter_response (JObject d) [s1, s2] = Inr t12
                     \<and> filter_response (JObject d) [s2, s1] = Inr t21 \<and> py_eq t12 t21))"
proof (intro conjI impI)
  assume h: "parse_path_segments spec = Inr p \<and> list_all simple_seg p"
  then have "apply_segments data p r = Inr r" if "apply_segments data p (JObject []) = Inr r" for r
    using that apply_segments_idem by blast
  with h show "filter_response data [spec, spec] = filter_response data [spec]"
    using repeated_spec_general [of spec p data] by blast
next
  assume h: "parse_path_segments spec = Inr (map Key ks @ Iterate # suffix) \<and> ks \<noteq> []
        \<and> list_all simple_seg suffix"
  then have "apply_segments data (map Key ks @ Iterate # suffix) r = Inr r"
    if "apply_segments data (map Key ks @ Iterate # suffix) (JObject []) = Inr r" for r
    using that apply_segments_iterate_idem by blast
  with h show "filter_response data [spec, spec] = filter_response data [spec]"
    using repeated_spec_general [of spec "map Key ks @ Iterate # suffix" data] by blast
next
  assume "parse_path_segments s1 = Inr (map Key ks @ Iterate # Key k1 # r1)
        \<and> parse_path_segments s2 = Inr (map Key ks @ Iterate # Key k2 # r2)
        \<and> ks \<noteq> [] \<and> lower k1 \<noteq> lower k2
        \<and> list_all simple_seg r1 \<and> list_all simple_seg r2 \<and> wf_json (JObject d)"
  then show "\<exists>t12 t21. filter_response (JObject d) [s1, s2] = Inr t12
                     \<and> filter_response (JObject d) [s2, s1] = Inr t21 \<and> py_eq t12 t21"
    using iterate_order [of s1 ks k1 r1 s2 k2 r2 d] by blast
next
  assume "parse_path_segments s1 = Inr (Key k1 # r1) \<and> parse_path_segments s2 = Inr (Key k2 # r2)
        \<and> lower k1 \<noteq> lower k2
        \<and> list_all simple_seg r1 \<and> list_all simple_seg r2 \<and> wf_json (JObject d)"
  then show "\<exists>t12 t21. filter_response (JObject d) [s1, s2] = Inr t12
                     \<and> filter_response (JObject d) [s2, s1] = Inr t21 \<and> py_eq t12 t21"
    using simple_order [of s1 k1 r1 s2 k2 r2 d] by blast
qed

theorem spec_repetition_and_order_witness:
  "parse_path_segments ''User.tags[1]'' = Inr [Key ''User'', Key ''tags'', Index 1]
   \<and> list_all simple_seg [Key ''User'', Key ''tags'', Index 1]
   \<and> filter_response (JObject [(''user'', JObject [(''tags'', JArray [JString ''a'', JString ''b''])])])
        [''User.tags[1]'', ''User.tags[1]'']
      = Inr (JObject [(''User'', JObject [(''tags'', JArray [JNull, JString ''b''])])])
   \<and> parse_path_segments ''data[].id'' = Inr (map Key [''data''] @ Iterate # [Key ''id''])
   \<and> list_all simple_seg [Key ''id'']
   \<and> filter_response
        (JObject [(''data'', JArray [JObject [(''id'', JNumber 1)], JObject [(''name'', JString ''B'')]])])
        [''data[].id'', ''data[].id'']
      = Inr (JObject [(''data'', JArray [JObject [(''id'', JNumber 1)], JObject []])])
   \<and> parse_path_segments ''data[].name'' = Inr (map Key [''data''] @ Iterate # [Key ''name''])
   \<and> lower ''id'' \<noteq> lower ''name''
   \<and> wf_json (JObject [(''data'', JArray [JObject [(''id'', JNumber 1), (''name'', JString ''A'')],
                                           JObject [(''id'', JNumber 2), (''name'', JString ''B'')]])])
   \<and> (\<exists>t12 t21.
         filter_response
           (JObject [(''data'', JArray [JObject [(''id'', JNumber 1), (''name'', JString ''A'')],
                                        JObject [(''id'', JNumber 2), (''name'', JString ''B'')]])])
           [''data[].id'', ''data[].name''] = Inr t12
         \<and> filter_response
           (JObject [(''data'', JArray [JObject [(''id'', JNumber 1), (''name'', JString ''A'')],
                                        JObject [(''id'', JNumber 2), (''name'', JString ''B'')]])])
           [''data[].name'', ''data[].id''] = Inr t21
         \<and> py_eq t12 t21)
   \<and> parse_path_segments ''user.name'' = Inr (Key ''user'' # [Key ''name''])
   \<and> parse_path_segments ''meta[0]'' = Inr (Key ''meta'' # [Index 0])
   \<and> lower ''user'' \<noteq> lower ''meta''
   \<and> list_all simple_seg [Key ''name''] \<and> list_all simple_seg [Index 0]
   \<and> wf_json (JObject [(''User'', JObject [(''Name'', JString ''Bob'')]), (''meta'', JArray [JNumber 7])])
   \<and> (\<exists>t12 t21.
         filter_response
           (JObject [(''User'', JObject [(''Name'', JString ''Bob'')]), (''meta'', JArray [JNumber 7])])
           [''user.name'', ''meta[0]''] = Inr t12
         \<and> filter_response
           (JObject [(''User'', JObject [(''Name'', JString ''Bob'')]), (''meta'', JArray [JNumber 7])])
           [''meta[0]'', ''user.name''] = Inr t21
         \<and> py_eq t12 t21)"
proof -
  let ?p = "[Key ''User'', Key ''tags'', Index 1]"
  let ?v = "JObject [(''user'', JObject [(''tags'', JArray [JString ''a'', JString ''b''])])]"
  let ?w = "JObject [(''data'', JArray [JObject [(''id'', JNumber 1)], JObject [(''name'', JString ''B'')]])]"
  let ?d = "[(''data'', JArray [JObject [(''id'', JNumber 1), (''name'', JString ''A'')],
                                JObject [(''id'', JNumber 2), (''name'', JString ''B'')]])]"
  let ?e = "[(''User'', JObject [(''Name'', JString ''Bob'')]), (''meta'', JArray [JNumber 7])]"
  have p: "parse_path_segments ''User.tags[1]'' = Inr ?p" by code_simp
  have sp: "list_all simple_seg ?p" by (simp add: simple_seg_def)
  have v: "filter_response ?v [''User.tags[1]'']
      = Inr (JObject [(''User'', JObject [(''tags'', JArray [JNull, JString ''b''])])])"
    by code_simp
  have q: "parse_path_segments ''data[].id'' = Inr (map Key [''data''] @ Iterate # [Key ''id''])"
    by code_simp
  have sq: "list_all simple_seg [Key ''id'']" by (simp add: simple_seg_def)
  have w: "filter_response ?w [''data[].id'']
      = Inr (JObject [(''data'', JArray [JObject [(''id'', JNumber 1)], JObject []])])"
    by code_simp
  have q1: "parse_path_segments ''data[].id'' = Inr (map Key [''data''] @ Iterate # Key ''id'' # [])"
    by code_simp
  have q2: "parse_path_segments ''data[].name'' = Inr (map Key [''data''] @ Iterate # Key ''name'' # [])"
    by code_simp
  have lo: "lower ''id'' \<noteq> lower ''name''" by code_simp
  have wd: "wf_json (JObject ?d)" by simp
  have u1: "parse_path_segments ''user.name'' = Inr (Key ''user'' # [Key ''name''])" by code_simp
  have u2: "parse_path_segments ''meta[0]'' = Inr (Key ''meta'' # [Index 0])" by code_simp
  have lu: "lower ''user'' \<noteq> lower ''meta''" by code_simp
  have su: "list_all simple_seg [Key ''name'']" "list_all simple_seg [Index 0]"
    by (simp_all add: simple_seg_def)
  have we: "wf_json (JObject ?e)" by simp
  from spec_repetition_and_order [of "''User.tags[1]''" ?p ?v] p sp v
  have 1: "filter_response ?v [''User.tags[1]'', ''User.tags[1]'']
      = Inr (JObject [(''User'', JObject [(''tags'', JArray [JNull, JString ''b''])])])"
    by simp
  from spec_repetition_and_order [where spec = "''data[].id''" and ks = "[''data'']" and suffix = "[Key ''id'']"
      and data = ?w] q sq w
  have 2: "filter_response ?w [''data[].id'', ''data[].id'']
      = Inr (JObject [(''data'', JArray [JObject [(''id'', JNumber 1)], JObject []])])"
    by simp
  from spec_repetition_and_order [where ?s1.0 = "''data[].id''" and ?s2.0 = "''data[].name''"
      and ks = "[''data'']" and ?k1.0 = "''id''" and ?k2.0 = "''name''" and ?r1.0 = "[]" and ?r2.0 = "[]"
      and d = ?d] q1 q2 lo wd
  have 3: "\<exists>t12 t21. filter_response (JObject ?d) [''data[].id'', ''data[].name''] = Inr t12
         \<and> filter_response (JObject ?d) [''data[].name'', ''data[].id''] = Inr t21 \<and> py_eq t12 t21"
    by simp
  from spec_repetition_and_order [where ?s1.0 = "''user.name''" and ?s2.0 = "''meta[0]''"
      and ?k1.0 = "''user''" and ?k2.0 = "''meta''" and ?r1.0 = "[Key ''name'']" and ?r2.0 = "[Index 0]"
      and d = ?e] u1 u2 lu su we
  have 4: "\<exists>t12 t21. filter_response (JObject ?e) [''user.name'', ''meta[0]''] = Inr t12
         \<and> filter_response (JObject ?e) [''meta[0]'', ''user.name''] = Inr t21 \<and> py_eq t12 t21"
    by simp
  from p sp 1 q sq 2 q2 lo wd 3 u1 u2 lu su we 4 show ?thesis by blast
qed

text \<open>
  Claim C6 as stated holds for all specs. Slice specs append on every application: repeating
  \<open>items[1:3]\<close> doubles the output array, and \<open>items[0:1]\<close>, \<open>items[1:2]\<close> in the two
  orders give the two elements in the two orders. The store model gives the same doubled array.
  And two specs that spell a shared key in different casings name it after whichever comes
  first: \<open>a.b\<close>, \<open>A.c\<close> give \<open>{"a": {...}}\<close> in one order and \<open>{"A": {...}}\<close> in the other.
\<close>

theorem spec_order_and_repetition_counterexample:
  "filter_response
      (JObject [(''items'', JArray [JObject [(''id'', JNumber 1)], JObject [(''id'', JNumber 2)],
                                    JObject [(''id'', JNumber 3)]])])
      [''items[1:3]'', ''items[1:3]'']
     = Inr (JObject [(''items'', JArray [JObject [(''id'', JNumber 2)], JObject [(''id'', JNumber 3)],
                                         JObject [(''id'', JNumber 2)], JObject [(''id'', JNumber 3)]])])
   \<and> filter_response
      (JObject [(''items'', JArray [JObject [(''id'', JNumber 1)], JObject [(''id'', JNumber 2)],
                                    JObject [(''id'', JNumber 3)]])])
      [''items[1:3]'']
     = Inr (JObject [(''items'', JArray [JObject [(''id'', JNumber 2)], JObject [(''id'', JNumber 3)]])])
   \<and> filter_response
      (JObject [(''items'', JArray [JObject [(''id'', JNumber 1)], JObject [(''id'', JNumber 2)],
                                    JObject [(''id'', JNumber 3)]])])
      [''items[0:1]'', ''items[1:2]'']
     = Inr (JObject [(''items'', JArray [JObject [(''id'', JNumber 1)], JObject [(''id'', JNumber 2)]])])
   \<and> filter_response
      (JObject [(''items'', JArray [JObject [(''id'', JNumber 1)], JObject [(''id'', JNumber 2)],
                                    JObject [(''id'', JNumber 3)]])])
      [''items[1:2]'', ''items[0:1]'']
     = Inr (JObject [(''items'', JArray [JObject [(''id'', JNumber 2)], JObject [(''id'', JNumber 1)]])])
   \<and> \<not> py_eq (JObject [(''items'', JArray [JObject [(''id'', JNumber 1)], JObject [(''id'', JNumber 2)]])])
             (JObject [(''items'', JArray [JObject [(''id'', JNumber 2)], JObject [(''id'', JNumber 1)]])])
   \<and> filter_response (JObject [(''a'', JObject [(''b'', JNumber 1), (''c'', JNumber 2)])]) [''a.b'', ''A.c'']
     = Inr (JObject [(''a'', JObject [(''b'', JNumber 1), (''c'', JNumber 2)])])
   \<and> filter_response (JObject [(''a'', JObject [(''b'', JNumber 1), (''c'', JNumber 2)])]) [''A.c'', ''a.b'']
     = Inr (JObject [(''A'', JObject [(''c'', JNumber 2), (''b'', JNumber 1)])])
   \<and> \<not> py_eq (JObject [(''a'', JObject [(''b'', JNumber 1), (''c'', JNumber 2)])])
             (JObject [(''A'', JObject [(''c'', JNumber 2), (''b'', JNumber 1)])])
   \<and> run_filter
      (JObject [(''items'', JArray [JObject [(''id'', JNumber 1)], JObject [(''id'', JNumber 2)],
                                    JObject [(''id'', JNumber 3)]])])
      [''items[1:3]'', ''items[1:3]'']
     = Inr (Some (JObject [(''items'', JArray [JObject [(''id'', JNumber 1)], JObject [(''id'', JNumber 2)],
                                    JObject [(''id'', JNumber 3)]])]),
            Some (JObject [(''items'', JArray [JObject [(''id'', JNumber 2)], JObject [(''id'', JNumber 3)],
                                         JObject [(''id'', JNumber 2)], JObject [(''id'', JNumber 3)]])]))"
  by code_simp


end
